theory Spec2Isabelle
  imports Main "HOL-Library.Word" "HOL-Library.Sublist"
begin

section \<open>Values handled by the engine\<close>

text \<open>
  Slot ids are \<^verbatim>\<open>uint32_t\<close>.  \<^verbatim>\<open>enum class ExecutorScheme\<close> is modelled by its
  underlying integer, so that values outside the four enumerators (reachable in C++ by a
  cast) can be written down.
\<close>

type_synonym slot_id = "32 word"

type_synonym ExecutorScheme = int

definition SYNCHRONOUS :: ExecutorScheme where "SYNCHRONOUS = 0"
definition ASYNCHRONOUS :: ExecutorScheme where "ASYNCHRONOUS = 1"
definition STRAND :: ExecutorScheme where "STRAND = 2"
definition THREAD_POOLED :: ExecutorScheme where "THREAD_POOLED = 3"

text \<open>
  A connected callable is opaque to the engine: the model only records whether a call of
  it with given arguments returns or lets an exception escape.
  \<^verbatim>\<open>std::function<void(Args...)>\<close> is either empty or holds such a callable.
\<close>

datatype completion = Returned | Threw

datatype 'a slot_function = EmptyFunction | Target "'a \<Rightarrow> completion"

text \<open>
  \<^verbatim>\<open>std::function<void()>\<close>, the element type of a strand queue: \<^verbatim>\<open>nullptr\<close>, the
  \<^verbatim>\<open>[](){}\<close> that \<^verbatim>\<open>queueListener\<close> starts with, or the closure
  \<^verbatim>\<open>[&function, p...](){function(p...);}\<close> built at emission.  The closure carries the id
  of the slot it was built for as a label for the trace.
\<close>

datatype 'a task = NullTask | NoOpTask | BoundCall slot_id "'a slot_function" 'a

datatype failure =
    bad_function_call     \<comment> \<open>an empty \<^verbatim>\<open>std::function\<close> was called\<close>
  | callback_exception    \<comment> \<open>a slot let an exception escape on the calling thread\<close>
  | would_block           \<comment> \<open>the calling thread waits, in \<^verbatim>\<open>join\<close> or in \<^verbatim>\<open>sem.acquire()\<close>\<close>
  | terminate             \<comment> \<open>\<^verbatim>\<open>std::terminate\<close>\<close>
  | system_error          \<comment> \<open>\<^verbatim>\<open>join\<close> on a thread object that is not joinable\<close>

datatype ('r, 's) outcome = Returns 'r 's | Fails failure 's

fun state_of :: "('r, 's) outcome \<Rightarrow> 's" where
  "state_of (Returns r s) = s"
| "state_of (Fails e s) = s"

fun invoke :: "'a slot_function \<Rightarrow> 'a \<Rightarrow> failure option" where
  "invoke EmptyFunction p = Some bad_function_call"
| "invoke (Target g) p = (case g p of Returned \<Rightarrow> None | Threw \<Rightarrow> Some callback_exception)"

fun run_task :: "'a task \<Rightarrow> failure option" where
  "run_task NullTask = Some bad_function_call"
| "run_task NoOpTask = None"
| "run_task (BoundCall i f p) = invoke f p"

section \<open>\<^verbatim>\<open>std::map\<close>\<close>

text \<open>
  A \<^verbatim>\<open>std::map\<close> is kept as the list of its entries in iteration order.  \<^verbatim>\<open>emplace\<close>
  inserts at the position the key order gives and leaves the map alone when the key is
  present; \<^verbatim>\<open>operator[]\<close> is \<^verbatim>\<open>emplace\<close> of a default value followed by access.
\<close>

type_synonym ('k, 'v) std_map = "('k \<times> 'v) list"

definition map_count :: "'k \<Rightarrow> ('k, 'v) std_map \<Rightarrow> bool" where
  "map_count k m = (map_of m k \<noteq> None)"

fun insert_entry :: "'k::linorder \<Rightarrow> 'v \<Rightarrow> ('k, 'v) std_map \<Rightarrow> ('k, 'v) std_map" where
  "insert_entry k v [] = [(k, v)]"
| "insert_entry k v (e # m) = (if k < fst e then (k, v) # e # m else e # insert_entry k v m)"

definition emplace :: "'k::linorder \<Rightarrow> 'v \<Rightarrow> ('k, 'v) std_map \<Rightarrow> ('k, 'v) std_map" where
  "emplace k v m = (if map_count k m then m else insert_entry k v m)"

definition erase :: "'k \<Rightarrow> ('k, 'v) std_map \<Rightarrow> ('k, 'v) std_map" where
  "erase k m = filter (\<lambda>e. fst e \<noteq> k) m"

definition modify :: "'k \<Rightarrow> ('v \<Rightarrow> 'v) \<Rightarrow> ('k, 'v) std_map \<Rightarrow> ('k, 'v) std_map" where
  "modify k f m = map (\<lambda>e. if fst e = k then (fst e, f (snd e)) else e) m"

definition keys :: "('k, 'v) std_map \<Rightarrow> 'k list" where
  "keys m = map fst m"

section \<open>State\<close>

datatype slot_map = SynchronousSlots | AsynchronousSlots | StrandSlots | ThreadPooledSlots

text \<open>
  What happens, in order.  Every call the engine makes on something outside its own maps
  is an event, and so is every destruction of a strand's thread object or queue.
\<close>

datatype 'a event =
    SlotCall slot_id 'a                 \<comment> \<open>\<^verbatim>\<open>runSynchronous\<close>: the slot is called inline\<close>
  | SemAcquire                          \<comment> \<open>\<^verbatim>\<open>sem.acquire()\<close> has returned\<close>
  | DetachedSpawn slot_id 'a            \<comment> \<open>the detached thread of \<^verbatim>\<open>runAsynchronous\<close> exists\<close>
  | DetachedCall slot_id 'a             \<comment> \<open>that thread calls the slot\<close>
  | SemRelease                          \<comment> \<open>that thread calls \<^verbatim>\<open>sem.release()\<close>\<close>
  | QueueEnqueue slot_id "'a task"      \<comment> \<open>\<^verbatim>\<open>strandQueues[id].enqueue\<close>\<close>
  | ListenerSpawn slot_id               \<comment> \<open>\<^verbatim>\<open>std::thread(&SignalImpl::queueListener, this, id)\<close>\<close>
  | ListenerSleep slot_id nat           \<comment> \<open>\<^verbatim>\<open>sleep_for(waitTime)\<close> on the listener\<close>
  | ListenerCall slot_id "'a task"      \<comment> \<open>\<^verbatim>\<open>func()\<close> on the listener\<close>
  | ListenerJoin slot_id                \<comment> \<open>\<^verbatim>\<open>join()\<close> has returned\<close>
  | ThreadDestroy slot_id               \<comment> \<open>the entry leaves \<^verbatim>\<open>strandThreads\<close>\<close>
  | QueueDestroy slot_id                \<comment> \<open>the entry leaves \<^verbatim>\<open>strandQueues\<close>\<close>
  | SlotErase slot_map slot_id          \<comment> \<open>the entry leaves a slot map\<close>
  | ThreadsClear "slot_id set"          \<comment> \<open>\<^verbatim>\<open>strandThreads.clear()\<close>: these entries leave\<close>
  | QueuesClear "slot_id set"           \<comment> \<open>\<^verbatim>\<open>strandQueues.clear()\<close>: these entries leave\<close>
  | SlotsClear slot_map "slot_id set"   \<comment> \<open>\<^verbatim>\<open>clear()\<close> of a slot map: these entries leave\<close>
  | PoolStartup                         \<comment> \<open>\<^verbatim>\<open>WheeledThreadPool::startup()\<close> is called\<close>
  | PoolRun "'a task"                   \<comment> \<open>\<^verbatim>\<open>WheeledThreadPool::run\<close> is called\<close>

text \<open>
  The locals of a running \<^verbatim>\<open>queueListener\<close>: \<^verbatim>\<open>func\<close>, \<^verbatim>\<open>waitTime\<close> (in nanoseconds;
  the source doubles a \<^verbatim>\<open>duration<double>\<close>, which is exact), and where the thread is: at
  the top of the loop body, suspended inside \<^verbatim>\<open>blockingDequeue\<close>, or returned.
\<close>

datatype listener_pc = AtLoopHead | InBlockingDequeue | Finished

record 'a listener =
  func :: "'a task"
  waitTime :: nat
  pc :: listener_pc

datatype 'a std_thread = NotAThread | Joinable "'a listener"

text \<open>
  The fields of \<^verbatim>\<open>SignalImpl\<close>.  \<^verbatim>\<open>sem\<close> is represented by \<^verbatim>\<open>Semaphore::semCounter\<close>.
  \<^verbatim>\<open>detachedThreads\<close> is not a field of the class: it lists the detached threads that
  captured \<^verbatim>\<open>this\<close> and have not finished, each with the slot and arguments it copied.
\<close>

record 'a SignalImpl =
  currentId :: "32 word"
  semCounter :: "32 word"
  enableEmissionGuard :: bool
  strandQueues :: "(slot_id, 'a task list) std_map"
  strandThreads :: "(slot_id, 'a std_thread) std_map"
  synchronousSlots :: "(slot_id, 'a slot_function) std_map"
  asynchronousSlots :: "(slot_id, 'a slot_function) std_map"
  strandSlots :: "(slot_id, 'a slot_function) std_map"
  threadPooledSlots :: "(slot_id, 'a slot_function) std_map"
  detachedThreads :: "(slot_id \<times> 'a slot_function \<times> 'a) list"

text \<open>
  Modelled from the spec: \<^verbatim>\<open>WheeledThreadPool\<close> (its source is not part of the files
  read).  The pool is process-wide; it is started at most once (idempotent init), a counter
  of start-ups is its instrumentation hook, it exposes its configured maximum backoff wait,
  and \<^verbatim>\<open>run\<close> puts a task on the one shared queue.
\<close>

record 'a WheeledThreadPool =
  started :: bool
  startups :: nat
  maxWait :: nat
  poolQueue :: "'a task list"

definition startup :: "'a WheeledThreadPool \<Rightarrow> 'a WheeledThreadPool" where
  "startup p = (if started p then p else p\<lparr>started := True, startups := startups p + 1\<rparr>)"

definition getMaxWait :: "'a WheeledThreadPool \<Rightarrow> nat" where
  "getMaxWait p = maxWait p"

definition pool_run :: "'a task \<Rightarrow> 'a WheeledThreadPool \<Rightarrow> 'a WheeledThreadPool" where
  "pool_run t p = p\<lparr>poolQueue := poolQueue p @ [t]\<rparr>"

text \<open>
  One engine as its methods see it: the object, the process-wide pool, and the trace of
  events so far.
\<close>

record 'a machine =
  impl :: "'a SignalImpl"
  pool :: "'a WheeledThreadPool"
  trace :: "'a event list"

definition emit_event :: "'a event list \<Rightarrow> 'a machine \<Rightarrow> 'a machine" where
  "emit_event es m = m\<lparr>trace := trace m @ es\<rparr>"

text \<open>The constructors: \<^verbatim>\<open>enableEmissionGuard {false}\<close>, \<^verbatim>\<open>sem {1024}\<close> by default.\<close>

definition construct :: "bool \<Rightarrow> 32 word \<Rightarrow> 'a SignalImpl" where
  "construct enforceThreadSafety maxAsyncThreads =
     \<lparr>currentId = 0, semCounter = maxAsyncThreads, enableEmissionGuard = enforceThreadSafety,
      strandQueues = [], strandThreads = [], synchronousSlots = [], asynchronousSlots = [],
      strandSlots = [], threadPooledSlots = [], detachedThreads = []\<rparr>"

definition default_construct :: "'a SignalImpl" where
  "default_construct = construct False 1024"

definition new_pool :: "nat \<Rightarrow> 'a WheeledThreadPool" where
  "new_pool mw = \<lparr>started = False, startups = 0, maxWait = mw, poolQueue = []\<rparr>"

definition fresh :: "nat \<Rightarrow> bool \<Rightarrow> 32 word \<Rightarrow> 'a machine" where
  "fresh mw enforceThreadSafety maxAsyncThreads =
     \<lparr>impl = construct enforceThreadSafety maxAsyncThreads, pool = new_pool mw, trace = []\<rparr>"

section \<open>Slot maps\<close>

fun slots :: "slot_map \<Rightarrow> 'a SignalImpl \<Rightarrow> (slot_id, 'a slot_function) std_map" where
  "slots SynchronousSlots s = synchronousSlots s"
| "slots AsynchronousSlots s = asynchronousSlots s"
| "slots StrandSlots s = strandSlots s"
| "slots ThreadPooledSlots s = threadPooledSlots s"

fun update_slots ::
  "slot_map \<Rightarrow> ((slot_id, 'a slot_function) std_map \<Rightarrow> (slot_id, 'a slot_function) std_map) \<Rightarrow>
     'a SignalImpl \<Rightarrow> 'a SignalImpl" where
  "update_slots SynchronousSlots f s = s\<lparr>synchronousSlots := f (synchronousSlots s)\<rparr>"
| "update_slots AsynchronousSlots f s = s\<lparr>asynchronousSlots := f (asynchronousSlots s)\<rparr>"
| "update_slots StrandSlots f s = s\<lparr>strandSlots := f (strandSlots s)\<rparr>"
| "update_slots ThreadPooledSlots f s = s\<lparr>threadPooledSlots := f (threadPooledSlots s)\<rparr>"

definition getSlotMap :: "ExecutorScheme \<Rightarrow> slot_map" where
  "getSlotMap scheme =
     (if scheme = ASYNCHRONOUS then AsynchronousSlots
      else if scheme = STRAND then StrandSlots
      else if scheme = THREAD_POOLED then ThreadPooledSlots
      else SynchronousSlots)"

definition findSlotMapWithId :: "'a SignalImpl \<Rightarrow> slot_id \<Rightarrow> slot_map option" where
  "findSlotMapWithId s i =
     (if map_count i (synchronousSlots s) then Some SynchronousSlots
      else if map_count i (asynchronousSlots s) then Some AsynchronousSlots
      else if map_count i (strandSlots s) then Some StrandSlots
      else if map_count i (threadPooledSlots s) then Some ThreadPooledSlots
      else None)"

section \<open>connectSlot\<close>

definition initial_listener :: "'a listener" where
  "initial_listener = \<lparr>func = NoOpTask, waitTime = 1, pc = AtLoopHead\<rparr>"

text \<open>
  \<^verbatim>\<open>strandThreads.emplace(id, std::thread(...))\<close> starts the thread before the map is
  asked; when the key is already there the started thread is destroyed while joinable,
  which is \<^verbatim>\<open>std::terminate\<close>.  The result is \<^verbatim>\<open>(int)id\<close>.
\<close>

definition connectSlot ::
  "'a machine \<Rightarrow> ExecutorScheme \<Rightarrow> 'a slot_function \<Rightarrow> (int, 'a machine) outcome" where
  "connectSlot m scheme slot =
     (let s = impl m;
          i = currentId s;
          s1 = s\<lparr>currentId := i + 1\<rparr>;
          s2 = update_slots (getSlotMap scheme) (emplace i slot) s1
      in if scheme = STRAND then
           (let s3 = s2\<lparr>strandQueues := emplace i [] (strandQueues s2)\<rparr>;
                m3 = emit_event [ListenerSpawn i] (m\<lparr>impl := s3\<rparr>)
            in if map_count i (strandThreads s3) then Fails terminate m3
               else Returns (sint i)
                      (m3\<lparr>impl := s3\<lparr>strandThreads :=
                                      emplace i (Joinable initial_listener) (strandThreads s3)\<rparr>\<rparr>))
         else if scheme = THREAD_POOLED then
           Returns (sint i) (emit_event [PoolStartup] (m\<lparr>impl := s2, pool := startup (pool m)\<rparr>))
         else Returns (sint i) (m\<lparr>impl := s2\<rparr>))"

section \<open>The strand listener\<close>

text \<open>
  Modelled from the spec: \<^verbatim>\<open>MPSCQueue\<close> (its source is not part of the files read).  The
  single consumer observes tasks in the order the enqueue calls completed: a queue is the
  list of its pending tasks, \<^verbatim>\<open>enqueue\<close> appends and never blocks, \<^verbatim>\<open>dequeue\<close> takes
  the head or reports an empty queue at once and leaves \<^verbatim>\<open>func\<close> alone,
  \<^verbatim>\<open>blockingDequeue\<close> waits until there is a head.
\<close>

definition enqueue :: "'a task \<Rightarrow> 'a task list \<Rightarrow> 'a task list" where
  "enqueue t q = q @ [t]"

fun dequeue :: "'a task list \<Rightarrow> ('a task \<times> 'a task list) option" where
  "dequeue [] = None"
| "dequeue (t # q) = Some (t, q)"

text \<open>\<^verbatim>\<open>if (func) func();\<close> on listener \<open>i\<close>: the events, and the exception if one escapes.\<close>

fun call_if_set :: "slot_id \<Rightarrow> 'a task \<Rightarrow> 'a event list \<times> failure option" where
  "call_if_set i NullTask = ([], None)"
| "call_if_set i t = ([ListenerCall i t], run_task t)"

text \<open>
  What a stretch of the listener's execution leaves behind: the queue, the locals and the
  events, or the events up to an exception that escaped \<^verbatim>\<open>func()\<close> on the listener thread
  (nothing catches it).
\<close>

datatype 'a listener_result =
    Runs "'a task list" "'a listener" "'a event list"
  | Aborts "'a event list"

text \<open>
  The test of \<^verbatim>\<open>while (func)\<close> at the end of a pass: the thread is at the top of the body
  again, or it returns.
\<close>

definition loop_test :: "'a listener \<Rightarrow> 'a listener" where
  "loop_test l = l\<lparr>pc := (if func l = NullTask then Finished else AtLoopHead)\<rparr>"

text \<open>
  \<^verbatim>\<open>q.blockingDequeue(func); if (func) func(); waitTime = 1ns;\<close> and the loop test; on
  an empty queue the thread stays inside \<^verbatim>\<open>blockingDequeue\<close>.
\<close>

definition blockingDequeue_step ::
  "slot_id \<Rightarrow> 'a task list \<Rightarrow> 'a listener \<Rightarrow> 'a event list \<Rightarrow> 'a listener_result" where
  "blockingDequeue_step i q l es =
     (case dequeue q of
        None \<Rightarrow> Runs q (l\<lparr>pc := InBlockingDequeue\<rparr>) es
      | Some (t, q') \<Rightarrow>
          (case call_if_set i t of
             (es', Some e) \<Rightarrow> Aborts (es @ es')
           | (es', None) \<Rightarrow> Runs q' (loop_test (l\<lparr>func := t, waitTime := 1\<rparr>)) (es @ es')))"

text \<open>\<^verbatim>\<open>if (waitTime > maxWait) { ... }\<close>, the last statement of the loop body.\<close>

definition wait_check ::
  "nat \<Rightarrow> slot_id \<Rightarrow> 'a task list \<Rightarrow> 'a listener \<Rightarrow> 'a event list \<Rightarrow> 'a listener_result" where
  "wait_check maxW i q l es =
     (if waitTime l > maxW then blockingDequeue_step i q l es
      else Runs q (loop_test l) es)"

text \<open>One pass through the body of \<^verbatim>\<open>while (func)\<close>, up to the next test.\<close>

definition loop_body :: "nat \<Rightarrow> slot_id \<Rightarrow> 'a task list \<Rightarrow> 'a listener \<Rightarrow> 'a listener_result" where
  "loop_body maxW i q l =
     (case dequeue q of
        Some (t, q') \<Rightarrow>
          (case call_if_set i t of
             (es, Some e) \<Rightarrow> Aborts es
           | (es, None) \<Rightarrow> wait_check maxW i q' (l\<lparr>func := t, waitTime := 1\<rparr>) es)
      | None \<Rightarrow>
          wait_check maxW i q (l\<lparr>waitTime := 2 * waitTime l\<rparr>) [ListenerSleep i (waitTime l)])"

text \<open>
  The listener thread between two points where it can be observed: one pass from the top
  of the body to the next loop test, or the rest of a pass that was suspended in
  \<^verbatim>\<open>blockingDequeue\<close>.  A thread starts at the top of the body: the first test sees the
  \<^verbatim>\<open>[](){}\<close> that \<^verbatim>\<open>func\<close> is initialised with.
\<close>

definition listener_step :: "nat \<Rightarrow> slot_id \<Rightarrow> 'a task list \<Rightarrow> 'a listener \<Rightarrow> 'a listener_result" where
  "listener_step maxW i q l =
     (case pc l of
        AtLoopHead \<Rightarrow> loop_body maxW i q l
      | InBlockingDequeue \<Rightarrow> blockingDequeue_step i q l []
      | Finished \<Rightarrow> Runs q l [])"

fun prepend :: "'a event list \<Rightarrow> 'a listener_result \<Rightarrow> 'a listener_result" where
  "prepend es (Runs q l es') = Runs q l (es @ es')"
| "prepend es (Aborts es') = Aborts (es @ es')"

text \<open>
  \<^verbatim>\<open>queueListener\<close> from a given point to its return, while nobody enqueues (the caller
  sits in \<^verbatim>\<open>join\<close>).  A listener suspended on an empty queue is never woken, and a loop
  that never ends has no result: both are \<open>None\<close>.
\<close>

partial_function (option) queueListener ::
  "nat \<Rightarrow> slot_id \<Rightarrow> 'a task list \<Rightarrow> 'a listener \<Rightarrow> 'a listener_result option" where
  "queueListener maxW i q l =
     (if pc l = Finished then Some (Runs q l [])
      else if pc l = InBlockingDequeue \<and> q = [] then None
      else (case listener_step maxW i q l of
              Aborts es \<Rightarrow> Some (Aborts es)
            | Runs q' l' es \<Rightarrow>
                Option.bind (queueListener maxW i q' l') (\<lambda>r. Some (prepend es r))))"

section \<open>disconnectSlot, disconnectAllSlots\<close>

definition set_impl :: "('a SignalImpl \<Rightarrow> 'a SignalImpl) \<Rightarrow> 'a machine \<Rightarrow> 'a machine" where
  "set_impl f m = m\<lparr>impl := f (impl m)\<rparr>"

text \<open>The queue the listener of strand \<open>i\<close> holds a reference to.\<close>

definition queue_of :: "slot_id \<Rightarrow> 'a SignalImpl \<Rightarrow> 'a task list" where
  "queue_of i s = (case map_of (strandQueues s) i of Some q \<Rightarrow> q | None \<Rightarrow> [])"

text \<open>\<^verbatim>\<open>q.second.enqueue(t)\<close> on the entry of key \<open>i\<close>.\<close>

definition enqueue_entry :: "slot_id \<Rightarrow> 'a task \<Rightarrow> 'a machine \<Rightarrow> 'a machine" where
  "enqueue_entry i t m =
     emit_event [QueueEnqueue i t]
       (set_impl (\<lambda>s. s\<lparr>strandQueues := modify i (enqueue t) (strandQueues s)\<rparr>) m)"

text \<open>\<^verbatim>\<open>strandQueues[i].enqueue(t)\<close>: \<^verbatim>\<open>operator[]\<close> first.\<close>

definition enqueue_strand :: "slot_id \<Rightarrow> 'a task \<Rightarrow> 'a machine \<Rightarrow> 'a machine" where
  "enqueue_strand i t m =
     enqueue_entry i t (set_impl (\<lambda>s. s\<lparr>strandQueues := emplace i [] (strandQueues s)\<rparr>) m)"

text \<open>
  \<^verbatim>\<open>t.second.join()\<close> on the entry of key \<open>i\<close>: the caller waits until the listener has
  returned; afterwards the thread object is no longer joinable.
\<close>

definition join_entry :: "slot_id \<Rightarrow> 'a machine \<Rightarrow> (unit, 'a machine) outcome" where
  "join_entry i m =
     (case map_of (strandThreads (impl m)) i of
        Some (Joinable l) \<Rightarrow>
          (case queueListener (getMaxWait (pool m)) i (queue_of i (impl m)) l of
             None \<Rightarrow> Fails would_block m
           | Some (Aborts es) \<Rightarrow> Fails terminate (emit_event es m)
           | Some (Runs q' l' es) \<Rightarrow>
               Returns ()
                 (emit_event (es @ [ListenerJoin i])
                    (set_impl (\<lambda>s. s\<lparr>strandQueues := modify i (\<lambda>_. q') (strandQueues s),
                                     strandThreads := modify i (\<lambda>_. NotAThread) (strandThreads s)\<rparr>) m)))
      | _ \<Rightarrow> Fails system_error m)"

text \<open>\<^verbatim>\<open>strandThreads[i].join()\<close>: \<^verbatim>\<open>operator[]\<close> first.\<close>

definition join_strand :: "slot_id \<Rightarrow> 'a machine \<Rightarrow> (unit, 'a machine) outcome" where
  "join_strand i m =
     join_entry i (set_impl (\<lambda>s. s\<lparr>strandThreads := emplace i NotAThread (strandThreads s)\<rparr>) m)"

definition erase_slot :: "slot_map \<Rightarrow> slot_id \<Rightarrow> 'a machine \<Rightarrow> 'a machine" where
  "erase_slot slotMap i m =
     emit_event [SlotErase slotMap i] (set_impl (update_slots slotMap (erase i)) m)"

definition disconnectSlot :: "'a machine \<Rightarrow> slot_id \<Rightarrow> (unit, 'a machine) outcome" where
  "disconnectSlot m i =
     (case findSlotMapWithId (impl m) i of
        None \<Rightarrow> Returns () m
      | Some slotMap \<Rightarrow>
          (if slotMap = StrandSlots then
             (case join_strand i (enqueue_strand i NullTask m) of
                Fails e m' \<Rightarrow> Fails e m'
              | Returns _ m1 \<Rightarrow>
                  (let m2 = emit_event [ThreadDestroy i]
                              (set_impl (\<lambda>s. s\<lparr>strandThreads := erase i (strandThreads s)\<rparr>) m1);
                       m3 = emit_event [QueueDestroy i]
                              (set_impl (\<lambda>s. s\<lparr>strandQueues := erase i (strandQueues s)\<rparr>) m2)
                   in Returns () (erase_slot slotMap i m3)))
           else Returns () (erase_slot slotMap i m)))"

fun for_each ::
  "('x \<Rightarrow> 's \<Rightarrow> (unit, 's) outcome) \<Rightarrow> 'x list \<Rightarrow> 's \<Rightarrow> (unit, 's) outcome" where
  "for_each f [] s = Returns () s"
| "for_each f (x # xs) s =
     (case f x s of Returns _ s' \<Rightarrow> for_each f xs s' | Fails e s' \<Rightarrow> Fails e s')"

text \<open>
  The six \<^verbatim>\<open>clear()\<close> calls at the end of \<^verbatim>\<open>disconnectAllSlots\<close>, in the order of the
  statements.  \<^verbatim>\<open>std::map::clear\<close> does not say in which order it destroys the entries of
  the map, so each call is one event that names the keys of the entries destroyed.
\<close>

definition clear_all :: "'a machine \<Rightarrow> 'a machine" where
  "clear_all m =
     (let s = impl m
      in emit_event
           [ThreadsClear (set (keys (strandThreads s))),
            QueuesClear (set (keys (strandQueues s))),
            SlotsClear SynchronousSlots (set (keys (synchronousSlots s))),
            SlotsClear AsynchronousSlots (set (keys (asynchronousSlots s))),
            SlotsClear StrandSlots (set (keys (strandSlots s))),
            SlotsClear ThreadPooledSlots (set (keys (threadPooledSlots s)))]
           (m\<lparr>impl := s\<lparr>strandThreads := [], strandQueues := [], synchronousSlots := [],
                         asynchronousSlots := [], strandSlots := [], threadPooledSlots := []\<rparr>\<rparr>))"

definition disconnectAllSlots :: "'a machine \<Rightarrow> (unit, 'a machine) outcome" where
  "disconnectAllSlots m =
     (let m1 = fold (\<lambda>i. enqueue_entry i NullTask) (keys (strandQueues (impl m))) m
      in case for_each join_entry (keys (strandThreads (impl m1))) m1 of
           Fails e m' \<Rightarrow> Fails e m'
         | Returns _ m2 \<Rightarrow> Returns () (clear_all m2))"

section \<open>emitSignal\<close>

text \<open>
  Modelled from the spec: \<^verbatim>\<open>Semaphore::acquire\<close> and \<^verbatim>\<open>Semaphore::release\<close> (only the
  class declaration is part of the files read).  \<^verbatim>\<open>acquire()\<close> blocks the caller until the
  counter is positive, then decrements; \<^verbatim>\<open>release()\<close> increments.  \<open>None\<close>: the caller is
  blocked.
\<close>

definition acquire :: "32 word \<Rightarrow> 32 word option" where
  "acquire c = (if c = 0 then None else Some (c - 1))"

definition release :: "32 word \<Rightarrow> 32 word" where
  "release c = c + 1"

text \<open>
  The four \<^verbatim>\<open>run...\<close> methods.  Each takes the id of the slot it runs as a label for the
  trace (\<^verbatim>\<open>runStrands\<close> has it as \<^verbatim>\<open>asyncQueueId\<close>).  In \<open>runSynchronous\<close> the call
  \<^verbatim>\<open>function(p...)\<close> is that of a callable that leaves the engine alone: it returns or
  throws, and the engine is as it was.  A callable that calls \<^verbatim>\<open>connectSlot\<close>,
  \<^verbatim>\<open>disconnectSlot\<close> or \<^verbatim>\<open>disconnectAllSlots\<close> of the engine while it runs is the matter
  of \<open>runSynchronous_calling\<close> below.
\<close>

definition runSynchronous ::
  "slot_id \<Rightarrow> 'a slot_function \<Rightarrow> 'a \<Rightarrow> 'a machine \<Rightarrow> (unit, 'a machine) outcome" where
  "runSynchronous i function p m =
     (case function of
        EmptyFunction \<Rightarrow> Fails bad_function_call m
      | Target g \<Rightarrow>
          (case invoke function p of
             None \<Rightarrow> Returns () (emit_event [SlotCall i p] m)
           | Some e \<Rightarrow> Fails e (emit_event [SlotCall i p] m)))"

definition runAsynchronous ::
  "slot_id \<Rightarrow> 'a slot_function \<Rightarrow> 'a \<Rightarrow> 'a machine \<Rightarrow> (unit, 'a machine) outcome" where
  "runAsynchronous i function p m =
     (case acquire (semCounter (impl m)) of
        None \<Rightarrow> Fails would_block m
      | Some c \<Rightarrow>
          Returns ()
            (emit_event [SemAcquire, DetachedSpawn i p]
               (set_impl (\<lambda>s. s\<lparr>semCounter := c,
                                detachedThreads := detachedThreads s @ [(i, function, p)]\<rparr>) m)))"

definition runStrands ::
  "slot_id \<Rightarrow> 'a slot_function \<Rightarrow> 'a \<Rightarrow> 'a machine \<Rightarrow> (unit, 'a machine) outcome" where
  "runStrands asyncQueueId function p m =
     Returns () (enqueue_strand asyncQueueId (BoundCall asyncQueueId function p) m)"

definition runThreadPooled ::
  "slot_id \<Rightarrow> 'a slot_function \<Rightarrow> 'a \<Rightarrow> 'a machine \<Rightarrow> (unit, 'a machine) outcome" where
  "runThreadPooled i function p m =
     Returns ()
       (emit_event [PoolRun (BoundCall i function p)]
          (m\<lparr>pool := pool_run (BoundCall i function p) (pool m)\<rparr>))"

fun and_then ::
  "(unit, 's) outcome \<Rightarrow> ('s \<Rightarrow> (unit, 's) outcome) \<Rightarrow> (unit, 's) outcome" where
  "and_then (Returns r s) f = f s"
| "and_then (Fails e s) f = Fails e s"

definition emitSignalUnsafe :: "'a machine \<Rightarrow> 'a \<Rightarrow> (unit, 'a machine) outcome" where
  "emitSignalUnsafe m p =
     and_then (for_each (\<lambda>slot. runSynchronous (fst slot) (snd slot) p)
                 (synchronousSlots (impl m)) m) (\<lambda>m1.
     and_then (for_each (\<lambda>slot. runAsynchronous (fst slot) (snd slot) p)
                 (asynchronousSlots (impl m1)) m1) (\<lambda>m2.
     and_then (for_each (\<lambda>slot. runStrands (fst slot) (snd slot) p)
                 (strandSlots (impl m2)) m2) (\<lambda>m3.
     for_each (\<lambda>slot. runThreadPooled (fst slot) (snd slot) p)
       (threadPooledSlots (impl m3)) m3)))"

text \<open>
  The shared lock keeps \<^verbatim>\<open>connectSlot\<close> and \<^verbatim>\<open>disconnectSlot\<close> of other threads out; the
  calls of one client are sequential here, so it changes nothing.
\<close>

definition emitSignalThreadSafe :: "'a machine \<Rightarrow> 'a \<Rightarrow> (unit, 'a machine) outcome" where
  "emitSignalThreadSafe m p = emitSignalUnsafe m p"

definition emitSignal :: "'a machine \<Rightarrow> 'a \<Rightarrow> (unit, 'a machine) outcome" where
  "emitSignal m p =
     (if enableEmissionGuard (impl m) then emitSignalThreadSafe m p else emitSignalUnsafe m p)"

section \<open>The other threads\<close>

text \<open>The listener of strand \<open>i\<close> gets the processor for one \<open>listener_step\<close>.\<close>

definition listener_runs :: "slot_id \<Rightarrow> 'a machine \<Rightarrow> (unit, 'a machine) outcome" where
  "listener_runs i m =
     (case map_of (strandThreads (impl m)) i of
        Some (Joinable l) \<Rightarrow>
          (case listener_step (getMaxWait (pool m)) i (queue_of i (impl m)) l of
             Aborts es \<Rightarrow> Fails terminate (emit_event es m)
           | Runs q' l' es \<Rightarrow>
               Returns ()
                 (emit_event es
                    (set_impl (\<lambda>s. s\<lparr>strandQueues := modify i (\<lambda>_. q') (strandQueues s),
                                     strandThreads := modify i (\<lambda>_. Joinable l') (strandThreads s)\<rparr>) m)))
      | _ \<Rightarrow> Returns () m)"

text \<open>
  The \<open>k\<close>-th detached thread runs its body \<^verbatim>\<open>function(p...); sem.release();\<close> and is
  gone.  An exception that escapes the body is caught by nobody.
\<close>

definition detached_finishes :: "nat \<Rightarrow> 'a machine \<Rightarrow> (unit, 'a machine) outcome" where
  "detached_finishes k m =
     (if k < length (detachedThreads (impl m)) then
        (case detachedThreads (impl m) ! k of
           (i, function, p) \<Rightarrow>
             (case function of
                EmptyFunction \<Rightarrow> Fails terminate m
              | Target g \<Rightarrow>
                  (case invoke function p of
                     Some e \<Rightarrow> Fails terminate (emit_event [DetachedCall i p] m)
                   | None \<Rightarrow>
                       Returns ()
                         (emit_event [DetachedCall i p, SemRelease]
                            (set_impl (\<lambda>s. s\<lparr>semCounter := release (semCounter s),
                                             detachedThreads :=
                                               take k (detachedThreads s) @
                                               drop (Suc k) (detachedThreads s)\<rparr>) m)))))
      else Returns () m)"

section \<open>Runs\<close>

datatype 'a operation =
    Connect ExecutorScheme "'a slot_function"
  | Disconnect slot_id
  | DisconnectAll
  | Emit 'a
  | ListenerRuns slot_id
  | DetachedFinishes nat

fun with_result :: "('r \<Rightarrow> 'q) \<Rightarrow> ('r, 's) outcome \<Rightarrow> ('q, 's) outcome" where
  "with_result f (Returns r s) = Returns (f r) s"
| "with_result f (Fails e s) = Fails e s"

fun step :: "'a machine \<Rightarrow> 'a operation \<Rightarrow> (int option, 'a machine) outcome" where
  "step m (Connect scheme slot) = with_result Some (connectSlot m scheme slot)"
| "step m (Disconnect i) = with_result (\<lambda>_. None) (disconnectSlot m i)"
| "step m DisconnectAll = with_result (\<lambda>_. None) (disconnectAllSlots m)"
| "step m (Emit p) = with_result (\<lambda>_. None) (emitSignal m p)"
| "step m (ListenerRuns i) = with_result (\<lambda>_. None) (listener_runs i m)"
| "step m (DetachedFinishes k) = with_result (\<lambda>_. None) (detached_finishes k m)"

text \<open>
  An exception that reaches the caller leaves the engine usable; after \<^verbatim>\<open>std::terminate\<close>
  there is no process, and a caller that waits makes no further call: a run is the sequence
  of calls that have returned to the client.  (A caller that waits in \<^verbatim>\<open>sem.acquire()\<close>
  goes on inside its \<^verbatim>\<open>emitSignal\<close> when a detached thread has released the semaphore;
  \<open>dispatch_from\<close> below is that continuation.)
\<close>

fun recoverable :: "failure \<Rightarrow> bool" where
  "recoverable bad_function_call = True"
| "recoverable callback_exception = True"
| "recoverable system_error = True"
| "recoverable would_block = False"
| "recoverable terminate = False"

text \<open>The state after a sequence of operations, \<open>None\<close> when the run does not get that far.\<close>

fun run :: "'a machine \<Rightarrow> 'a operation list \<Rightarrow> 'a machine option" where
  "run m [] = Some m"
| "run m (x # xs) =
     (case step m x of
        Returns r m' \<Rightarrow> run m' xs
      | Fails e m' \<Rightarrow> if recoverable e then run m' xs else None)"

text \<open>The ids that the \<^verbatim>\<open>connectSlot\<close> calls of a run return, in call order.\<close>

fun returned_ids :: "'a machine \<Rightarrow> 'a operation list \<Rightarrow> int list" where
  "returned_ids m [] = []"
| "returned_ids m (x # xs) =
     (case step m x of
        Returns r m' \<Rightarrow> (case r of Some i \<Rightarrow> i # returned_ids m' xs | None \<Rightarrow> returned_ids m' xs)
      | Fails e m' \<Rightarrow> if recoverable e then returned_ids m' xs else [])"

fun is_connect :: "'a operation \<Rightarrow> bool" where
  "is_connect (Connect scheme slot) = True"
| "is_connect x = False"

section \<open>Several engines in one process\<close>

record 'a process =
  engines :: "'a SignalImpl list"
  shared_pool :: "'a WheeledThreadPool"
  history :: "'a event list"

definition new_process :: "nat \<Rightarrow> (bool \<times> 32 word) list \<Rightarrow> 'a process" where
  "new_process mw configs =
     \<lparr>engines = map (\<lambda>c. construct (fst c) (snd c)) configs,
      shared_pool = new_pool mw, history = []\<rparr>"

definition view :: "'a process \<Rightarrow> nat \<Rightarrow> 'a machine" where
  "view P k = \<lparr>impl = engines P ! k, pool = shared_pool P, trace = history P\<rparr>"

definition write_back :: "'a process \<Rightarrow> nat \<Rightarrow> 'a machine \<Rightarrow> 'a process" where
  "write_back P k m =
     \<lparr>engines = (engines P)[k := impl m], shared_pool = pool m, history = trace m\<rparr>"

text \<open>
  An operation names the engine it is called on by its index; an index that denotes no
  engine denotes no call.
\<close>

definition process_step ::
  "'a process \<Rightarrow> nat \<times> 'a operation \<Rightarrow> (int option, 'a process) outcome" where
  "process_step P x =
     (if fst x < length (engines P) then
        (case step (view P (fst x)) (snd x) of
           Returns r m \<Rightarrow> Returns r (write_back P (fst x) m)
         | Fails e m \<Rightarrow> Fails e (write_back P (fst x) m))
      else Returns None P)"

fun process_run :: "'a process \<Rightarrow> (nat \<times> 'a operation) list \<Rightarrow> 'a process option" where
  "process_run P [] = Some P"
| "process_run P (x # xs) =
     (case process_step P x of
        Returns r P' \<Rightarrow> process_run P' xs
      | Fails e P' \<Rightarrow> if recoverable e then process_run P' xs else None)"

section \<open>Auxiliary notions\<close>

text \<open>The part of the object that \<^verbatim>\<open>emitSignal\<close> is not meant to touch.\<close>

definition registrations :: "'a SignalImpl \<Rightarrow> _" where
  "registrations s = (synchronousSlots s, asynchronousSlots s, strandSlots s, threadPooledSlots s,
     strandThreads s, currentId s, enableEmissionGuard s)"

text \<open>The slot maps that hold an entry for an id.\<close>

definition registries_holding :: "'a SignalImpl \<Rightarrow> slot_id \<Rightarrow> slot_map list" where
  "registries_holding s i =
     filter (\<lambda>sm. map_count i (slots sm s))
       [SynchronousSlots, AsynchronousSlots, StrandSlots, ThreadPooledSlots]"

text \<open>An engine with one slot of each scheme, ids 0 to 3, and a pool whose maximum wait is 1000 ns.\<close>

definition one_of_each :: "nat machine" where
  "one_of_each =
     state_of (connectSlot (state_of (connectSlot (state_of (connectSlot (state_of (connectSlot
       (fresh 1000 False 1024)
       SYNCHRONOUS (Target (\<lambda>_. Returned)))) ASYNCHRONOUS (Target (\<lambda>_. Returned))))
       STRAND (Target (\<lambda>_. Returned)))) THREAD_POOLED (Target (\<lambda>_. Returned)))"

text \<open>The states that the dispatch loops of \<^verbatim>\<open>emitSignalUnsafe\<close> lead to.\<close>

definition spawned :: "'a \<Rightarrow> (slot_id \<times> 'a slot_function) list \<Rightarrow> 'a machine \<Rightarrow> 'a machine" where
  "spawned p xs m =
     emit_event (concat (map (\<lambda>slot. [SemAcquire, DetachedSpawn (fst slot) p]) xs))
       (set_impl (\<lambda>s. s\<lparr>semCounter := semCounter s - of_nat (length xs),
                        detachedThreads :=
                          detachedThreads s @ map (\<lambda>slot. (fst slot, snd slot, p)) xs\<rparr>) m)"

definition enqueued :: "'a \<Rightarrow> (slot_id \<times> 'a slot_function) list \<Rightarrow> 'a machine \<Rightarrow> 'a machine" where
  "enqueued p xs m =
     fold (\<lambda>slot. enqueue_strand (fst slot) (BoundCall (fst slot) (snd slot) p)) xs m"

definition pooled :: "'a \<Rightarrow> (slot_id \<times> 'a slot_function) list \<Rightarrow> 'a machine \<Rightarrow> 'a machine" where
  "pooled p xs m =
     emit_event (map (\<lambda>slot. PoolRun (BoundCall (fst slot) (snd slot) p)) xs)
       (m\<lparr>pool := (pool m)\<lparr>poolQueue := poolQueue (pool m) @
                                 map (\<lambda>slot. BoundCall (fst slot) (snd slot) p) xs\<rparr>\<rparr>)"

text \<open>The state in which \<^verbatim>\<open>emitSignalUnsafe\<close> returns, when it does.\<close>

definition emitted :: "'a \<Rightarrow> 'a machine \<Rightarrow> 'a machine" where
  "emitted p m =
     pooled p (threadPooledSlots (impl m))
       (enqueued p (strandSlots (impl m))
          (spawned p (asynchronousSlots (impl m))
             (emit_event (map (\<lambda>slot. SlotCall (fst slot) p) (synchronousSlots (impl m))) m)))"

text \<open>The state invariant: every map iterates in ascending key order, each strand has its queue
  and its listener, no queue holds \<^verbatim>\<open>nullptr\<close>, and every listener is running.\<close>

definition ordered :: "('k::linorder, 'v) std_map \<Rightarrow> bool" where
  "ordered m = sorted_wrt (<) (keys m)"

definition live_listener :: "'a std_thread \<Rightarrow> bool" where
  "live_listener t =
     (case t of NotAThread \<Rightarrow> False | Joinable l \<Rightarrow> pc l \<noteq> Finished \<and> func l \<noteq> NullTask)"

definition well_formed :: "'a SignalImpl \<Rightarrow> bool" where
  "well_formed s =
     (ordered (synchronousSlots s) \<and> ordered (asynchronousSlots s) \<and>
      ordered (strandSlots s) \<and> ordered (threadPooledSlots s) \<and>
      ordered (strandQueues s) \<and> ordered (strandThreads s) \<and>
      keys (strandQueues s) = keys (strandSlots s) \<and>
      keys (strandThreads s) = keys (strandSlots s) \<and>
      list_all (\<lambda>e. NullTask \<notin> set (snd e)) (strandQueues s) \<and>
      list_all (\<lambda>e. live_listener (snd e)) (strandThreads s))"


text \<open>
  The worker loop in the words of the specification.  \<open>spec_run_and_reset\<close>: run the
  dequeued task, or exit if it is the shutdown message, and reset the wait time to its
  minimum.  \<open>spec_blocking_dequeue\<close>: perform a blocking dequeue, run the result (or exit on
  shutdown), and reset the wait time.  \<open>spec_worker_step\<close>: attempt a non-blocking dequeue;
  on success run and reset; on an empty queue sleep for the current wait time, then double
  it, and once it exceeds the configured maximum go to the blocking dequeue.
\<close>

definition spec_run_and_reset ::
  "slot_id \<Rightarrow> 'a task \<Rightarrow> 'a task list \<Rightarrow> 'a event list \<Rightarrow> 'a listener_result" where
  "spec_run_and_reset i t q es =
     (if t = NullTask then Runs q \<lparr>func = NullTask, waitTime = 1, pc = Finished\<rparr> es
      else (case run_task t of
              None \<Rightarrow> Runs q \<lparr>func = t, waitTime = 1, pc = AtLoopHead\<rparr> (es @ [ListenerCall i t])
            | Some e \<Rightarrow> Aborts (es @ [ListenerCall i t])))"

definition spec_blocking_dequeue ::
  "slot_id \<Rightarrow> 'a task list \<Rightarrow> 'a listener \<Rightarrow> 'a event list \<Rightarrow> 'a listener_result" where
  "spec_blocking_dequeue i q l es =
     (case q of
        [] \<Rightarrow> Runs [] (l\<lparr>pc := InBlockingDequeue\<rparr>) es
      | t # q' \<Rightarrow> spec_run_and_reset i t q' es)"

definition spec_worker_step ::
  "nat \<Rightarrow> slot_id \<Rightarrow> 'a task list \<Rightarrow> 'a listener \<Rightarrow> 'a listener_result" where
  "spec_worker_step maxW i q l =
     (case pc l of
        Finished \<Rightarrow> Runs q l []
      | InBlockingDequeue \<Rightarrow> spec_blocking_dequeue i q l []
      | AtLoopHead \<Rightarrow>
          (case q of
             t # q' \<Rightarrow> spec_run_and_reset i t q' []
           | [] \<Rightarrow>
               (if 2 * waitTime l > maxW
                then spec_blocking_dequeue i [] (l\<lparr>waitTime := 2 * waitTime l\<rparr>)
                       [ListenerSleep i (waitTime l)]
                else Runs [] (l\<lparr>waitTime := 2 * waitTime l, pc := AtLoopHead\<rparr>)
                       [ListenerSleep i (waitTime l)])))"

definition async_event :: "'a event \<Rightarrow> bool" where
  "async_event e = (case e of SemAcquire \<Rightarrow> True | DetachedSpawn i p \<Rightarrow> True | _ \<Rightarrow> False)"

text \<open>
  All the ids held by the four slot maps, and two more invariants of an engine whose
  counter has not wrapped: every id held is below \<^verbatim>\<open>currentId\<close>, and no id is held twice.
\<close>

definition held_ids :: "'a SignalImpl \<Rightarrow> slot_id list" where
  "held_ids s =
     keys (synchronousSlots s) @ keys (asynchronousSlots s) @ keys (strandSlots s) @
     keys (threadPooledSlots s)"

definition ids_below :: "'a SignalImpl \<Rightarrow> bool" where
  "ids_below s = list_all (\<lambda>k. k < currentId s) (held_ids s)"

definition one_registry :: "'a SignalImpl \<Rightarrow> bool" where
  "one_registry s = distinct (held_ids s)"

text \<open>A \<^verbatim>\<open>connectSlot\<close> call with the scheme \<^verbatim>\<open>THREAD_POOLED\<close>.\<close>

fun pooled_connect :: "'a operation \<Rightarrow> bool" where
  "pooled_connect (Connect scheme slot) = (scheme = THREAD_POOLED)"
| "pooled_connect x = False"

text \<open>What the pool is, its queue apart.\<close>

definition pool_status :: "'a WheeledThreadPool \<Rightarrow> bool \<times> nat \<times> nat" where
  "pool_status p = (started p, startups p, maxWait p)"

text \<open>Two engines; a pooled slot is connected on each, and a second one on the first.\<close>

definition two_engines :: "nat process option" where
  "two_engines =
     process_run (new_process 1000 [(False, 1024), (False, 1024)])
       [(0, Connect THREAD_POOLED (Target (\<lambda>_. Returned))),
        (1, Connect THREAD_POOLED (Target (\<lambda>_. Returned))),
        (0, Connect THREAD_POOLED (Target (\<lambda>_. Returned)))]"

text \<open>An operation that is a \<^verbatim>\<open>disconnectSlot\<close> or a \<^verbatim>\<open>disconnectAllSlots\<close> call.\<close>

fun is_disconnect :: "'a operation \<Rightarrow> bool" where
  "is_disconnect (Disconnect i) = True"
| "is_disconnect DisconnectAll = True"
| "is_disconnect x = False"

text \<open>
  A session with two strands: two emissions, one step of the first listener, a second
  strand, a third emission, and the disconnect of the first strand.
\<close>

definition strand_session :: "nat machine option" where
  "strand_session =
     run (fresh 1000 False 1024)
       [Connect STRAND (Target (\<lambda>_. Returned)), Emit 1, Emit 2, ListenerRuns 0,
        Connect STRAND (Target (\<lambda>_. Returned)), Emit 3, Disconnect 0]"

text \<open>
  The steps of the shutdown handshake of a strand, the step of strand \<open>k\<close> that an event is,
  and the steps of strand \<open>k\<close> that a sequence of events contains, in the order they
  happened.
\<close>

datatype handshake_step =
  ShutdownPushed | ListenerJoined | ThreadReleased | QueueReleased | SlotRemoved

fun step_of :: "slot_id \<Rightarrow> 'a event \<Rightarrow> handshake_step option" where
  "step_of k (QueueEnqueue j t) = (if j = k \<and> t = NullTask then Some ShutdownPushed else None)"
| "step_of k (ListenerJoin j) = (if j = k then Some ListenerJoined else None)"
| "step_of k (ThreadDestroy j) = (if j = k then Some ThreadReleased else None)"
| "step_of k (ThreadsClear K) = (if k \<in> K then Some ThreadReleased else None)"
| "step_of k (QueueDestroy j) = (if j = k then Some QueueReleased else None)"
| "step_of k (QueuesClear K) = (if k \<in> K then Some QueueReleased else None)"
| "step_of k (SlotErase sm j) = (if sm = StrandSlots \<and> j = k then Some SlotRemoved else None)"
| "step_of k (SlotsClear sm K) = (if sm = StrandSlots \<and> k \<in> K then Some SlotRemoved else None)"
| "step_of k e = None"

definition handshake_of :: "slot_id \<Rightarrow> 'a event list \<Rightarrow> handshake_step list" where
  "handshake_of k es = List.map_filter (step_of k) es"

definition handshake :: "handshake_step list" where
  "handshake = [ShutdownPushed, ListenerJoined, ThreadReleased, QueueReleased, SlotRemoved]"

text \<open>
  Two strands with a backlog: both are connected, 5 is emitted, the first listener runs its
  task, and 6 is emitted.
\<close>

definition strands_backlog :: "nat machine option" where
  "strands_backlog =
     run (fresh 1000 False 1024)
       [Connect STRAND (Target (\<lambda>_. Returned)), Connect STRAND (Target (\<lambda>_. Returned)),
        Emit 5, ListenerRuns 0, Emit 6]"

text \<open>
  An engine whose id counter has wrapped: a strand is connected under id 0, then
  \<open>2^32 - 1\<close> pooled slots, then a synchronous slot, which gets id 0 again.
\<close>

definition wrapped_strand :: "nat machine option" where
  "wrapped_strand =
     run (fresh 1000 False 1024)
       (Connect STRAND (Target (\<lambda>_. Returned)) #
        replicate 4294967295 (Connect THREAD_POOLED (Target (\<lambda>_. Returned))) @
        [Connect SYNCHRONOUS (Target (\<lambda>_. Returned))])"

text \<open>
  \<^verbatim>\<open>emitSignalUnsafe\<close> from its second loop on, when the first \<open>k\<close> asynchronous slots have
  been dispatched already: what the emitting thread does after the synchronous slots
  (\<open>k = 0\<close>), and what it goes on with when \<^verbatim>\<open>sem.acquire()\<close> returns after it had to wait
  at the asynchronous slot of index \<open>k\<close>.
\<close>

definition dispatch_from :: "'a \<Rightarrow> nat \<Rightarrow> 'a machine \<Rightarrow> (unit, 'a machine) outcome" where
  "dispatch_from p k m =
     and_then (for_each (\<lambda>slot. runAsynchronous (fst slot) (snd slot) p)
                 (drop k (asynchronousSlots (impl m))) m) (\<lambda>m2.
     and_then (for_each (\<lambda>slot. runStrands (fst slot) (snd slot) p)
                 (strandSlots (impl m2)) m2) (\<lambda>m3.
     for_each (\<lambda>slot. runThreadPooled (fst slot) (snd slot) p)
       (threadPooledSlots (impl m3)) m3))"

text \<open>
  The scenario of the specification for backpressure: a semaphore of capacity 1 and two
  asynchronous slots, ids 0 and 1.
\<close>

definition throttled :: "nat machine" where
  "throttled =
     state_of (connectSlot (state_of (connectSlot (fresh 1000 False 1)
       ASYNCHRONOUS (Target (\<lambda>_. Returned)))) ASYNCHRONOUS (Target (\<lambda>_. Returned)))"















section \<open>Containers and frames\<close>

lemma state_of_emit_event [simp]:
  "impl (emit_event es m) = impl m" "pool (emit_event es m) = pool m"
  "trace (emit_event es m) = trace m @ es"
  by (simp_all add: emit_event_def)

lemma set_impl_simps [simp]:
  "impl (set_impl f m) = f (impl m)" "pool (set_impl f m) = pool m"
  "trace (set_impl f m) = trace m"
  by (simp_all add: set_impl_def)

lemma for_each_invariant:
  assumes "\<And>x s. x \<in> set xs \<Longrightarrow> P s \<Longrightarrow> P (state_of (f x s))" and "P s"
  shows "P (state_of (for_each f xs s))"
  using assms
proof (induction xs arbitrary: s)
  case Nil
  then show ?case by simp
next
  case (Cons x xs)
  have "P (state_of (f x s))" using Cons.prems by simp
  then show ?case using Cons
    by (cases "f x s") (auto)
qed

lemma and_then_invariant:
  assumes "P (state_of r)" and "\<And>s. P s \<Longrightarrow> P (state_of (f s))"
  shows "P (state_of (and_then r f))"
  using assms by (cases r) auto

lemma emplace_keys_eq: "map_count k m \<Longrightarrow> emplace k v m = m"
  by (simp add: emplace_def)

lemma keys_modify [simp]: "keys (modify k f m) = keys m"
  by (induction m) (auto simp: keys_def modify_def)

lemma runSynchronous_frame: "impl (state_of (runSynchronous i f p m)) = impl m"
  by (auto simp: runSynchronous_def split: slot_function.splits option.splits)

lemma runAsynchronous_frame:
  "registrations (impl (state_of (runAsynchronous i f p m))) = registrations (impl m)"
  by (auto simp: runAsynchronous_def registrations_def split: option.splits)

lemma runStrands_frame:
  "registrations (impl (state_of (runStrands i f p m))) = registrations (impl m)"
  by (auto simp: runStrands_def registrations_def enqueue_strand_def enqueue_entry_def)

lemma runThreadPooled_frame: "impl (state_of (runThreadPooled i f p m)) = impl m"
  by (auto simp: runThreadPooled_def)

lemma emitSignalUnsafe_frame:
  "registrations (impl (state_of (emitSignalUnsafe m p))) = registrations (impl m)"
  unfolding emitSignalUnsafe_def
  apply (rule and_then_invariant[where P="\<lambda>x. registrations (impl x) = registrations (impl m)"])
   apply (rule for_each_invariant[where P="\<lambda>x. registrations (impl x) = registrations (impl m)"])
    apply (simp add: runSynchronous_frame)
   apply simp
  apply (rule and_then_invariant[where P="\<lambda>x. registrations (impl x) = registrations (impl m)"])
   apply (rule for_each_invariant[where P="\<lambda>x. registrations (impl x) = registrations (impl m)"])
    apply (simp add: runAsynchronous_frame)
   apply simp
  apply (rule and_then_invariant[where P="\<lambda>x. registrations (impl x) = registrations (impl m)"])
   apply (rule for_each_invariant[where P="\<lambda>x. registrations (impl x) = registrations (impl m)"])
    apply (simp add: runStrands_frame)
   apply simp
   apply (rule for_each_invariant[where P="\<lambda>x. registrations (impl x) = registrations (impl m)"])
    apply (simp add: runThreadPooled_frame)
  apply simp
  done

lemma emitSignal_frame:
  "registrations (impl (state_of (emitSignal m p))) = registrations (impl m)"
  by (simp add: emitSignal_def emitSignalThreadSafe_def emitSignalUnsafe_frame)


lemmas engine_defs =
  connectSlot_def disconnectSlot_def disconnectAllSlots_def emitSignal_def
  emitSignalThreadSafe_def emitSignalUnsafe_def runSynchronous_def runAsynchronous_def
  runStrands_def runThreadPooled_def enqueue_strand_def enqueue_entry_def join_strand_def
  join_entry_def erase_slot_def clear_all_def listener_runs_def detached_finishes_def
  getSlotMap_def findSlotMapWithId_def fresh_def construct_def new_pool_def startup_def
  getMaxWait_def pool_run_def acquire_def release_def emplace_def erase_def modify_def
  keys_def map_count_def queue_of_def enqueue_def initial_listener_def
  SYNCHRONOUS_def ASYNCHRONOUS_def STRAND_def THREAD_POOLED_def
  listener_step_def loop_body_def wait_check_def blockingDequeue_step_def loop_test_def
  emit_event_def set_impl_def

lemma map_count_erase [simp]: "map_count k (erase k' m) = (k \<noteq> k' \<and> map_count k m)"
  by (induction m) (auto simp: map_count_def erase_def)

lemma map_count_modify [simp]: "map_count k (modify k' f m) = map_count k m"
  by (induction m) (auto simp: map_count_def modify_def)

lemma erase_modify [simp]: "erase k (modify k f m) = erase k m"
  by (induction m) (auto simp: erase_def modify_def)

lemma slots_update_slots [simp]:
  "slots sm (update_slots sm' f s) = (if sm = sm' then f (slots sm s) else slots sm s)"
  by (cases sm; cases sm') simp_all

lemma update_slots_other [simp]:
  "currentId (update_slots sm f s) = currentId s"
  "semCounter (update_slots sm f s) = semCounter s"
  "enableEmissionGuard (update_slots sm f s) = enableEmissionGuard s"
  "strandQueues (update_slots sm f s) = strandQueues s"
  "strandThreads (update_slots sm f s) = strandThreads s"
  "detachedThreads (update_slots sm f s) = detachedThreads s"
  by (cases sm; simp)+

lemma findSlotMapWithId_None:
  "(findSlotMapWithId s i = None) = (\<forall>sm. \<not> map_count i (slots sm s))"
proof
  assume "findSlotMapWithId s i = None"
  then have "\<not> map_count i (slots sm s)" for sm
    by (cases sm) (auto simp: findSlotMapWithId_def split: if_splits)
  then show "\<forall>sm. \<not> map_count i (slots sm s)" by blast
next
  assume a: "\<forall>sm. \<not> map_count i (slots sm s)"
  show "findSlotMapWithId s i = None"
    using a [rule_format, of SynchronousSlots] a [rule_format, of AsynchronousSlots]
      a [rule_format, of StrandSlots] a [rule_format, of ThreadPooledSlots]
    by (simp add: findSlotMapWithId_def)
qed

lemma findSlotMapWithId_Some:
  "findSlotMapWithId s i = Some sm \<Longrightarrow> map_count i (slots sm s)"
  by (auto simp: findSlotMapWithId_def split: if_splits)

lemma registries_holding_unique:
  assumes "length (registries_holding s i) \<le> 1" and "map_count i (slots sm s)"
    and "sm' \<noteq> sm"
  shows "\<not> map_count i (slots sm' s)"
  using assms by (cases sm; cases sm') (auto simp: registries_holding_def split: if_splits)

text \<open>What \<open>join_strand\<close> and \<open>enqueue_strand\<close> leave alone.\<close>

lemma enqueue_entry_frame [simp]:
  "slots sm (impl (enqueue_entry i t m)) = slots sm (impl m)"
  "strandThreads (impl (enqueue_entry i t m)) = strandThreads (impl m)"
  "currentId (impl (enqueue_entry i t m)) = currentId (impl m)"
  "semCounter (impl (enqueue_entry i t m)) = semCounter (impl m)"
  "detachedThreads (impl (enqueue_entry i t m)) = detachedThreads (impl m)"
  "enableEmissionGuard (impl (enqueue_entry i t m)) = enableEmissionGuard (impl m)"
  "pool (enqueue_entry i t m) = pool m"
  by (cases sm; simp add: enqueue_entry_def)+

lemma enqueue_strand_frame [simp]:
  "slots sm (impl (enqueue_strand i t m)) = slots sm (impl m)"
  "strandThreads (impl (enqueue_strand i t m)) = strandThreads (impl m)"
  "currentId (impl (enqueue_strand i t m)) = currentId (impl m)"
  "semCounter (impl (enqueue_strand i t m)) = semCounter (impl m)"
  "detachedThreads (impl (enqueue_strand i t m)) = detachedThreads (impl m)"
  "enableEmissionGuard (impl (enqueue_strand i t m)) = enableEmissionGuard (impl m)"
  "pool (enqueue_strand i t m) = pool m"
  by (cases sm; simp add: enqueue_strand_def)+

lemma join_entry_frame:
  "slots sm (impl (state_of (join_entry i m))) = slots sm (impl m) \<and>
   currentId (impl (state_of (join_entry i m))) = currentId (impl m) \<and>
   semCounter (impl (state_of (join_entry i m))) = semCounter (impl m) \<and>
   detachedThreads (impl (state_of (join_entry i m))) = detachedThreads (impl m) \<and>
   enableEmissionGuard (impl (state_of (join_entry i m))) = enableEmissionGuard (impl m) \<and>
   pool (state_of (join_entry i m)) = pool m"
  by (cases sm)
     (auto simp: join_entry_def split: option.splits std_thread.splits listener_result.splits)

lemma join_strand_frame:
  "slots sm (impl (state_of (join_strand i m))) = slots sm (impl m) \<and>
   currentId (impl (state_of (join_strand i m))) = currentId (impl m) \<and>
   semCounter (impl (state_of (join_strand i m))) = semCounter (impl m) \<and>
   detachedThreads (impl (state_of (join_strand i m))) = detachedThreads (impl m) \<and>
   enableEmissionGuard (impl (state_of (join_strand i m))) = enableEmissionGuard (impl m) \<and>
   pool (state_of (join_strand i m)) = pool m"
  unfolding join_strand_def
  using join_entry_frame [of sm i "set_impl (\<lambda>s. s\<lparr>strandThreads := emplace i NotAThread (strandThreads s)\<rparr>) m"]
  by (cases sm) simp_all

lemma disconnectSlot_slots:
  assumes "disconnectSlot m i = Returns () m'" and "findSlotMapWithId (impl m) i = Some sm"
  shows "slots sm' (impl m') = (if sm' = sm then erase i (slots sm (impl m)) else slots sm' (impl m))"
proof (cases "sm = StrandSlots")
  case False
  then show ?thesis using assms
    by (auto simp: disconnectSlot_def erase_slot_def)
next
  case True
  obtain m1 where j: "join_strand i (enqueue_strand i NullTask m) = Returns () m1"
    and m': "m' = erase_slot StrandSlots i
       (emit_event [QueueDestroy i] (set_impl (\<lambda>s. s\<lparr>strandQueues := erase i (strandQueues s)\<rparr>)
         (emit_event [ThreadDestroy i] (set_impl (\<lambda>s. s\<lparr>strandThreads := erase i (strandThreads s)\<rparr>) m1))))"
    using assms True
    by (auto simp: disconnectSlot_def Let_def split: outcome.splits)
  have fr: "slots x (impl m1) = slots x (impl m)" for x
    using join_strand_frame [of x i "enqueue_strand i NullTask m"] j by simp
  show ?thesis
    using True m' fr [of SynchronousSlots] fr [of AsynchronousSlots] fr [of StrandSlots]
      fr [of ThreadPooledSlots]
    by (cases sm') (simp_all add: erase_slot_def)
qed

section \<open>The dispatch loops\<close>

lemma emit_event_Nil [simp]: "emit_event [] m = m"
  by (simp add: emit_event_def)

lemma emit_event_emit_event [simp]: "emit_event es (emit_event es' m) = emit_event (es' @ es) m"
  by (simp add: emit_event_def)

text \<open>The events of one pass of each dispatch loop of \<^verbatim>\<open>emitSignalUnsafe\<close>.\<close>

lemma runSynchronous_Returns:
  "runSynchronous i f p m = Returns () m' \<Longrightarrow>
     invoke f p = None \<and> m' = emit_event [SlotCall i p] m"
  by (auto simp: runSynchronous_def split: slot_function.splits option.splits)

lemma runSynchronous_Fails:
  "runSynchronous i f p m = Fails e m' \<Longrightarrow>
     invoke f p = Some e \<and> impl m' = impl m \<and> pool m' = pool m \<and>
     (\<exists>es. trace m' = trace m @ es \<and> prefix es [SlotCall i p])"
  by (auto simp: runSynchronous_def split: slot_function.splits option.splits completion.splits)

lemma for_each_runSynchronous_Returns:
  "for_each (\<lambda>slot. runSynchronous (fst slot) (snd slot) p) xs m = Returns () m' \<Longrightarrow>
     m' = emit_event (map (\<lambda>slot. SlotCall (fst slot) p) xs) m \<and>
     (\<forall>slot \<in> set xs. invoke (snd slot) p = None)"
proof (induction xs arbitrary: m)
  case Nil
  then show ?case by simp
next
  case (Cons x xs)
  then obtain m1 where 1: "runSynchronous (fst x) (snd x) p m = Returns () m1"
    and 2: "for_each (\<lambda>slot. runSynchronous (fst slot) (snd slot) p) xs m1 = Returns () m'"
    by (auto split: outcome.splits)
  show ?case
    using runSynchronous_Returns [OF 1] Cons.IH [OF 2] by simp
qed

lemma for_each_runSynchronous_Fails:
  "for_each (\<lambda>slot. runSynchronous (fst slot) (snd slot) p) xs m = Fails e m' \<Longrightarrow>
     impl m' = impl m \<and> pool m' = pool m \<and>
     (\<exists>es. trace m' = trace m @ es \<and> prefix es (map (\<lambda>slot. SlotCall (fst slot) p) xs))"
proof (induction xs arbitrary: m)
  case Nil
  then show ?case by simp
next
  case (Cons x xs)
  show ?case
  proof (cases "runSynchronous (fst x) (snd x) p m")
    case (Returns u m1)
    then have 2: "for_each (\<lambda>slot. runSynchronous (fst slot) (snd slot) p) xs m1 = Fails e m'"
      using Cons.prems by simp
    from Returns have m1: "m1 = emit_event [SlotCall (fst x) p] m"
      using runSynchronous_Returns [of "fst x" "snd x" p m m1] by simp
    from Cons.IH [OF 2] obtain es where
      "impl m' = impl m1" "pool m' = pool m1" "trace m' = trace m1 @ es"
      "prefix es (map (\<lambda>slot. SlotCall (fst slot) p) xs)"
      by blast
    then show ?thesis using m1
      by (intro conjI exI [of _ "SlotCall (fst x) p # es"]) simp_all
  next
    case (Fails e1 m1)
    then have "e1 = e" "m1 = m'" using Cons.prems by simp_all
    with Fails runSynchronous_Fails [of "fst x" "snd x" p m e m'] obtain es where
      "impl m' = impl m" "pool m' = pool m" "trace m' = trace m @ es"
      "prefix es [SlotCall (fst x) p]"
      by blast
    moreover have "prefix [SlotCall (fst x) p]
        (map (\<lambda>slot. SlotCall (fst slot) p) (x # xs))"
      by simp
    ultimately show ?thesis
      using prefix_order.trans by blast
  qed
qed

lemma for_each_runSynchronous_ok:
  "\<forall>slot \<in> set xs. invoke (snd slot) p = None \<Longrightarrow>
   for_each (\<lambda>slot. runSynchronous (fst slot) (snd slot) p) xs m =
     Returns () (emit_event (map (\<lambda>slot. SlotCall (fst slot) p) xs) m)"
proof (induction xs arbitrary: m)
  case Nil
  then show ?case by simp
next
  case (Cons x xs)
  have "runSynchronous (fst x) (snd x) p m = Returns () (emit_event [SlotCall (fst x) p] m)"
    using Cons.prems
    by (cases "snd x") (auto simp: runSynchronous_def split: option.splits)
  then show ?case using Cons by simp
qed

lemma spawned_Nil [simp]: "spawned p [] m = m"
  by (simp add: spawned_def set_impl_def)

lemma spawned_Cons:
  "spawned p xs
     (emit_event [SemAcquire, DetachedSpawn (fst x) p]
        (set_impl (\<lambda>s. s\<lparr>semCounter := semCounter s - 1,
                         detachedThreads := detachedThreads s @ [(fst x, snd x, p)]\<rparr>) m)) =
   spawned p (x # xs) m"
  by (simp add: spawned_def set_impl_def emit_event_def algebra_simps)

lemma runAsynchronous_cases:
  "runAsynchronous i f p m =
     (if semCounter (impl m) = 0 then Fails would_block m
      else Returns ()
             (emit_event [SemAcquire, DetachedSpawn i p]
                (set_impl (\<lambda>s. s\<lparr>semCounter := semCounter s - 1,
                                 detachedThreads := detachedThreads s @ [(i, f, p)]\<rparr>) m)))"
  by (simp add: runAsynchronous_def acquire_def set_impl_def)

lemma for_each_runAsynchronous_Returns:
  "for_each (\<lambda>slot. runAsynchronous (fst slot) (snd slot) p) xs m = Returns () m' \<Longrightarrow>
     m' = spawned p xs m"
proof (induction xs arbitrary: m)
  case Nil
  then show ?case by simp
next
  case (Cons x xs)
  let ?m1 = "emit_event [SemAcquire, DetachedSpawn (fst x) p]
      (set_impl (\<lambda>s. s\<lparr>semCounter := semCounter s - 1,
                       detachedThreads := detachedThreads s @ [(fst x, snd x, p)]\<rparr>) m)"
  have nz: "semCounter (impl m) \<noteq> 0"
    using Cons.prems runAsynchronous_cases [of "fst x" "snd x" p m]
    by (auto split: if_splits)
  then have "runAsynchronous (fst x) (snd x) p m = Returns () ?m1"
    by (simp add: runAsynchronous_cases)
  then have "for_each (\<lambda>slot. runAsynchronous (fst slot) (snd slot) p) xs ?m1 = Returns () m'"
    using Cons.prems by simp
  from Cons.IH [OF this] show ?case by (simp add: spawned_Cons)
qed

lemma for_each_runAsynchronous_Fails:
  "for_each (\<lambda>slot. runAsynchronous (fst slot) (snd slot) p) xs m = Fails e m' \<Longrightarrow>
     e = would_block \<and> (\<exists>n < length xs. m' = spawned p (take n xs) m)"
proof (induction xs arbitrary: m)
  case Nil
  then show ?case by simp
next
  case (Cons x xs)
  show ?case
  proof (cases "semCounter (impl m) = 0")
    case True
    then have "e = would_block" "m' = m" using Cons.prems
      by (simp_all add: runAsynchronous_cases)
    then show ?thesis by (auto intro: exI [of _ 0])
  next
    case False
    let ?m1 = "emit_event [SemAcquire, DetachedSpawn (fst x) p]
        (set_impl (\<lambda>s. s\<lparr>semCounter := semCounter s - 1,
                         detachedThreads := detachedThreads s @ [(fst x, snd x, p)]\<rparr>) m)"
    have "runAsynchronous (fst x) (snd x) p m = Returns () ?m1"
      using False by (simp add: runAsynchronous_cases)
    then have "for_each (\<lambda>slot. runAsynchronous (fst slot) (snd slot) p) xs ?m1 = Fails e m'"
      using Cons.prems by simp
    from Cons.IH [OF this] obtain n where "e = would_block" "n < length xs"
      "m' = spawned p (take n xs) ?m1" by blast
    then show ?thesis
      by (auto simp: spawned_Cons intro!: exI [of _ "Suc n"])
  qed
qed

lemma for_each_runAsynchronous_ok:
  "length xs \<le> unat (semCounter (impl m)) \<Longrightarrow>
   for_each (\<lambda>slot. runAsynchronous (fst slot) (snd slot) p) xs m = Returns () (spawned p xs m)"
proof (induction xs arbitrary: m)
  case Nil
  then show ?case by simp
next
  case (Cons x xs)
  have nz: "semCounter (impl m) \<noteq> 0" using Cons.prems by (auto simp: unat_eq_0)
  then have "unat (semCounter (impl m) - 1) = unat (semCounter (impl m)) - 1"
    by (simp add: unat_minus_one)
  then have le: "length xs \<le> unat (semCounter (impl m) - 1)" using Cons.prems by simp
  let ?m1 = "emit_event [SemAcquire, DetachedSpawn (fst x) p]
      (set_impl (\<lambda>s. s\<lparr>semCounter := semCounter s - 1,
                       detachedThreads := detachedThreads s @ [(fst x, snd x, p)]\<rparr>) m)"
  have step: "runAsynchronous (fst x) (snd x) p m = Returns () ?m1"
    using nz by (simp add: runAsynchronous_cases)
  have "for_each (\<lambda>slot. runAsynchronous (fst slot) (snd slot) p) xs ?m1 =
      Returns () (spawned p xs ?m1)"
    by (rule Cons.IH) (simp add: le)
  then show ?case using step by (simp add: spawned_Cons)
qed

lemma for_each_runStrands:
  "for_each (\<lambda>slot. runStrands (fst slot) (snd slot) p) xs m = Returns () (enqueued p xs m)"
  by (induction xs arbitrary: m) (simp_all add: enqueued_def runStrands_def)

lemma trace_enqueue_strand [simp]:
  "trace (enqueue_strand i t m) = trace m @ [QueueEnqueue i t]"
  by (simp add: enqueue_strand_def enqueue_entry_def)

lemma impl_enqueue_entry [simp]:
  "impl (enqueue_entry i t m) =
     (impl m)\<lparr>strandQueues := modify i (enqueue t) (strandQueues (impl m))\<rparr>"
  by (simp add: enqueue_entry_def)

lemma impl_enqueue_strand [simp]:
  "impl (enqueue_strand i t m) =
     (impl m)\<lparr>strandQueues := modify i (enqueue t) (emplace i [] (strandQueues (impl m)))\<rparr>"
  by (simp add: enqueue_strand_def)

lemma enqueued_frame [simp]:
  "trace (enqueued p xs m) =
     trace m @ map (\<lambda>slot. QueueEnqueue (fst slot) (BoundCall (fst slot) (snd slot) p)) xs"
  "pool (enqueued p xs m) = pool m"
  "synchronousSlots (impl (enqueued p xs m)) = synchronousSlots (impl m)"
  "asynchronousSlots (impl (enqueued p xs m)) = asynchronousSlots (impl m)"
  "strandSlots (impl (enqueued p xs m)) = strandSlots (impl m)"
  "threadPooledSlots (impl (enqueued p xs m)) = threadPooledSlots (impl m)"
  "strandThreads (impl (enqueued p xs m)) = strandThreads (impl m)"
  "currentId (impl (enqueued p xs m)) = currentId (impl m)"
  "semCounter (impl (enqueued p xs m)) = semCounter (impl m)"
  "detachedThreads (impl (enqueued p xs m)) = detachedThreads (impl m)"
  "enableEmissionGuard (impl (enqueued p xs m)) = enableEmissionGuard (impl m)"
  by (induction xs arbitrary: m) (simp_all add: enqueued_def)

lemma pooled_Nil [simp]: "pooled p [] m = m"
  by (simp add: pooled_def)

lemma for_each_runThreadPooled:
  "for_each (\<lambda>slot. runThreadPooled (fst slot) (snd slot) p) xs m = Returns () (pooled p xs m)"
proof (induction xs arbitrary: m)
  case Nil
  then show ?case by simp
next
  case (Cons x xs)
  then show ?case
    by (simp add: runThreadPooled_def pooled_def pool_run_def emit_event_def)
qed

lemma impl_spawned [simp]:
  "impl (spawned p xs m) =
     (impl m)\<lparr>semCounter := semCounter (impl m) - of_nat (length xs),
               detachedThreads :=
                 detachedThreads (impl m) @ map (\<lambda>slot. (fst slot, snd slot, p)) xs\<rparr>"
  "pool (spawned p xs m) = pool m"
  "trace (spawned p xs m) =
     trace m @ concat (map (\<lambda>slot. [SemAcquire, DetachedSpawn (fst slot) p]) xs)"
  by (simp_all add: spawned_def)

lemma impl_pooled [simp]:
  "impl (pooled p xs m) = impl m"
  "trace (pooled p xs m) =
     trace m @ map (\<lambda>slot. PoolRun (BoundCall (fst slot) (snd slot) p)) xs"
  "pool (pooled p xs m) =
     (pool m)\<lparr>poolQueue := poolQueue (pool m) @ map (\<lambda>slot. BoundCall (fst slot) (snd slot) p) xs\<rparr>"
  by (simp_all add: pooled_def)

lemma emitSignalUnsafe_Returns:
  assumes "emitSignalUnsafe m p = Returns () m'"
  shows "m' = emitted p m" and "\<forall>slot \<in> set (synchronousSlots (impl m)). invoke (snd slot) p = None"
    and "semCounter (impl m) = 0 \<longrightarrow> asynchronousSlots (impl m) = []"
proof -
  let ?L1 = "for_each (\<lambda>slot. runSynchronous (fst slot) (snd slot) p) (synchronousSlots (impl m)) m"
  obtain m1 where 1: "?L1 = Returns () m1"
    using assms by (cases ?L1) (simp_all add: emitSignalUnsafe_def)
  note s1 = for_each_runSynchronous_Returns [OF 1]
  let ?L2 = "for_each (\<lambda>slot. runAsynchronous (fst slot) (snd slot) p) (asynchronousSlots (impl m1)) m1"
  obtain m2 where 2: "?L2 = Returns () m2"
    using assms 1 by (cases ?L2) (simp_all add: emitSignalUnsafe_def)
  note s2 = for_each_runAsynchronous_Returns [OF 2]
  show "m' = emitted p m"
    using assms 1 2 s1 s2
    by (simp add: emitSignalUnsafe_def for_each_runStrands for_each_runThreadPooled emitted_def)
  show "\<forall>slot \<in> set (synchronousSlots (impl m)). invoke (snd slot) p = None"
    using s1 by simp
  show "semCounter (impl m) = 0 \<longrightarrow> asynchronousSlots (impl m) = []"
  proof
    assume z: "semCounter (impl m) = 0"
    show "asynchronousSlots (impl m) = []"
    proof (cases "asynchronousSlots (impl m)")
      case Nil
      then show ?thesis .
    next
      case (Cons x xs)
      then have "?L2 = Fails would_block m1"
        using s1 z by (simp add: runAsynchronous_cases)
      then show ?thesis using 2 by simp
    qed
  qed
qed

lemma trace_emitted:
  "trace (emitted p m) = trace m @
     map (\<lambda>slot. SlotCall (fst slot) p) (synchronousSlots (impl m)) @
     concat (map (\<lambda>slot. [SemAcquire, DetachedSpawn (fst slot) p]) (asynchronousSlots (impl m))) @
     map (\<lambda>slot. QueueEnqueue (fst slot) (BoundCall (fst slot) (snd slot) p)) (strandSlots (impl m)) @
     map (\<lambda>slot. PoolRun (BoundCall (fst slot) (snd slot) p)) (threadPooledSlots (impl m))"
  by (simp add: emitted_def)


lemma emitSignalUnsafe_Fails:
  assumes "emitSignalUnsafe m p = Fails e m'"
  shows "\<exists>es. trace m' = trace m @ es \<and>
     prefix es (map (\<lambda>slot. SlotCall (fst slot) p) (synchronousSlots (impl m)) @
       concat (map (\<lambda>slot. [SemAcquire, DetachedSpawn (fst slot) p]) (asynchronousSlots (impl m))))"
proof -
  let ?A = "map (\<lambda>slot. SlotCall (fst slot) p) (synchronousSlots (impl m))"
  let ?B = "\<lambda>xs. concat (map (\<lambda>slot. [SemAcquire, DetachedSpawn (fst slot) p]) xs)"
  let ?L1 = "for_each (\<lambda>slot. runSynchronous (fst slot) (snd slot) p) (synchronousSlots (impl m)) m"
  show ?thesis
  proof (cases ?L1)
    case (Fails e1 m1)
    then have "e1 = e" "m1 = m'" using assms by (simp_all add: emitSignalUnsafe_def)
    with for_each_runSynchronous_Fails [of p "synchronousSlots (impl m)" m e m'] Fails
    obtain es where "trace m' = trace m @ es" "prefix es ?A" by blast
    then show ?thesis by (auto intro: prefix_order.trans)
  next
    case (Returns u m1)
    note s1 = for_each_runSynchronous_Returns [of p "synchronousSlots (impl m)" m m1]
    have m1: "m1 = emit_event ?A m" using s1 Returns by simp
    let ?L2 = "for_each (\<lambda>slot. runAsynchronous (fst slot) (snd slot) p) (asynchronousSlots (impl m1)) m1"
    show ?thesis
    proof (cases ?L2)
      case (Fails e2 m2)
      then have "m2 = m'" using assms Returns by (simp add: emitSignalUnsafe_def)
      with for_each_runAsynchronous_Fails [of p "asynchronousSlots (impl m1)" m1 e2 m'] Fails
      obtain n where "m' = spawned p (take n (asynchronousSlots (impl m1))) m1"
        by blast
      then have tr: "trace m' = trace m @ ?A @ ?B (take n (asynchronousSlots (impl m)))"
        using m1 by simp
      have "?B (asynchronousSlots (impl m)) =
          ?B (take n (asynchronousSlots (impl m))) @ ?B (drop n (asynchronousSlots (impl m)))"
        by (metis append_take_drop_id concat_append map_append)
      then have "prefix (?A @ ?B (take n (asynchronousSlots (impl m))))
          (?A @ ?B (asynchronousSlots (impl m)))"
        by (simp add: prefix_def)
      then show ?thesis using tr by blast
    next
      case (Returns u2 m2)
      then have "emitSignalUnsafe m p =
          Returns () (pooled p (threadPooledSlots (impl (enqueued p (strandSlots (impl m2)) m2)))
             (enqueued p (strandSlots (impl m2)) m2))"
        using \<open>?L1 = Returns u m1\<close>
        by (simp add: emitSignalUnsafe_def for_each_runStrands for_each_runThreadPooled)
      then show ?thesis using assms by simp
    qed
  qed
qed

section \<open>Facts about \<^verbatim>\<open>std::map\<close>\<close>

lemma map_count_keys: "map_count k m = (k \<in> set (keys m))"
  by (induction m) (auto simp: map_count_def keys_def)

lemma keys_Nil [simp]: "keys [] = []"
  by (simp add: keys_def)

lemma ordered_Nil [simp]: "ordered []"
  by (simp add: ordered_def)

lemma keys_insert_entry:
  "k \<notin> set (keys m) \<Longrightarrow> keys (insert_entry k v m) = insort k (keys m)"
  by (induction m) (auto simp: keys_def)

lemma ordered_iff: "ordered m = (sorted (keys m) \<and> distinct (keys m))"
  by (simp add: ordered_def strict_sorted_iff)

lemma ordered_insert_entry:
  "ordered m \<Longrightarrow> k \<notin> set (keys m) \<Longrightarrow> ordered (insert_entry k v m)"
  by (simp add: ordered_iff keys_insert_entry sorted_insort distinct_insort)

lemma ordered_emplace: "ordered m \<Longrightarrow> ordered (emplace k v m)"
  by (simp add: emplace_def ordered_insert_entry map_count_keys)

lemma keys_erase: "keys (erase k m) = filter (\<lambda>x. x \<noteq> k) (keys m)"
  by (induction m) (auto simp: keys_def erase_def)

lemma ordered_erase: "ordered m \<Longrightarrow> ordered (erase k m)"
  by (simp add: ordered_def keys_erase sorted_wrt_filter)

lemma ordered_modify [simp]: "ordered (modify k f m) = ordered m"
  by (simp add: ordered_def)

lemma keys_emplace:
  "keys (emplace k v m) = (if k \<in> set (keys m) then keys m else insort k (keys m))"
  by (simp add: emplace_def map_count_keys keys_insert_entry)

lemma list_all_insert_entry [simp]:
  "list_all P (insert_entry k v m) = (P (k, v) \<and> list_all P m)"
  by (induction m) auto

lemma list_all_erase: "list_all P m \<Longrightarrow> list_all P (erase k m)"
  by (simp add: erase_def list_all_iff)

lemma erase_insert_entry: "erase k (insert_entry k v m) = erase k m"
  by (induction m) (auto simp: erase_def)

lemma erase_emplace [simp]: "erase k (emplace k v m) = erase k m"
  by (simp add: emplace_def erase_insert_entry)

lemma list_all_emplace:
  "list_all P (emplace k v m) =
     (if k \<in> set (keys m) then list_all P m else P (k, v) \<and> list_all P m)"
  by (simp add: emplace_def map_count_keys)

lemma list_all_modify:
  "list_all P m \<Longrightarrow> (\<And>v. (k, v) \<in> set m \<Longrightarrow> P (k, f v)) \<Longrightarrow> list_all P (modify k f m)"
  by (auto simp: list_all_iff modify_def)

lemma map_of_modify:
  "map_of (modify k f m) k' = (if k' = k then map_option f (map_of m k) else map_of m k')"
  by (induction m) (auto simp: modify_def)

lemma map_of_in_set: "map_of m k = Some v \<Longrightarrow> (k, v) \<in> set m"
  by (rule map_of_SomeD)

lemma ordered_map_of: "ordered m \<Longrightarrow> (k, v) \<in> set m \<Longrightarrow> map_of m k = Some v"
  by (simp add: ordered_iff keys_def)

section \<open>The invariant is kept\<close>

lemma well_formed_construct: "well_formed (construct g c)"
  by (simp add: well_formed_def construct_def)

lemma well_formed_ignores [simp]:
  "well_formed (s\<lparr>semCounter := c\<rparr>) = well_formed s"
  "well_formed (s\<lparr>detachedThreads := d\<rparr>) = well_formed s"
  "well_formed (s\<lparr>currentId := n\<rparr>) = well_formed s"
  by (simp_all add: well_formed_def)

lemma well_formed_connectSlot:
  assumes "well_formed (impl m)" and "connectSlot m scheme slot = Returns r m'"
  shows "well_formed (impl m')"
proof (cases "scheme = STRAND")
  case True
  let ?i = "currentId (impl m)"
  have nc: "\<not> map_count ?i (strandThreads (impl m))"
    using assms(2) True
    by (auto simp: connectSlot_def Let_def getSlotMap_def STRAND_def ASYNCHRONOUS_def
        emit_event_def split: if_splits)
  then have nk: "?i \<notin> set (keys (strandSlots (impl m)))"
    using assms(1) by (simp add: well_formed_def map_count_keys)
  have m': "impl m' = (impl m)\<lparr>currentId := ?i + 1,
      strandSlots := emplace ?i slot (strandSlots (impl m)),
      strandQueues := emplace ?i [] (strandQueues (impl m)),
      strandThreads := emplace ?i (Joinable initial_listener) (strandThreads (impl m))\<rparr>"
    using assms(2) True nc
    by (auto simp: connectSlot_def Let_def getSlotMap_def STRAND_def ASYNCHRONOUS_def
        emit_event_def split: if_splits)
  show ?thesis
    using assms(1) nk
    by (simp add: m' well_formed_def ordered_emplace keys_emplace list_all_emplace
        live_listener_def initial_listener_def)
next
  case False
  then have "impl m' = update_slots (getSlotMap scheme) (emplace (currentId (impl m)) slot)
      ((impl m)\<lparr>currentId := currentId (impl m) + 1\<rparr>)" and "getSlotMap scheme \<noteq> StrandSlots"
    using assms(2)
    by (auto simp: connectSlot_def Let_def getSlotMap_def split: if_splits)
  then show ?thesis using assms(1)
    by (cases "getSlotMap scheme") (simp_all add: well_formed_def ordered_emplace)
qed

lemma erase_absent: "k \<notin> set (keys m) \<Longrightarrow> erase k m = m"
  by (induction m) (auto simp: erase_def keys_def)

lemma join_entry_Returns:
  "join_entry i m = Returns () m1 \<Longrightarrow>
     \<exists>q' l l' es.
       map_of (strandThreads (impl m)) i = Some (Joinable l) \<and>
       queueListener (getMaxWait (pool m)) i (queue_of i (impl m)) l = Some (Runs q' l' es) \<and>
       impl m1 = (impl m)\<lparr>strandQueues := modify i (\<lambda>_. q') (strandQueues (impl m)),
                           strandThreads := modify i (\<lambda>_. NotAThread) (strandThreads (impl m))\<rparr> \<and>
       pool m1 = pool m \<and> trace m1 = trace m @ es @ [ListenerJoin i]"
  by (auto simp: join_entry_def split: option.splits std_thread.splits listener_result.splits)

lemma join_entry_Fails:
  "join_entry i m = Fails e m1 \<Longrightarrow>
     impl m1 = impl m \<and> pool m1 = pool m \<and>
     (e = system_error \<longrightarrow> (\<forall>l. map_of (strandThreads (impl m)) i \<noteq> Some (Joinable l)))"
  by (auto simp: join_entry_def split: option.splits std_thread.splits listener_result.splits)

lemma well_formed_joinable:
  assumes "well_formed s" and "k \<in> set (keys (strandThreads s))"
  shows "\<exists>l. map_of (strandThreads s) k = Some (Joinable l)"
proof -
  obtain t where t: "(k, t) \<in> set (strandThreads s)"
    using assms(2) by (auto simp: keys_def)
  then have "live_listener t" using assms(1) by (auto simp: well_formed_def list_all_iff)
  then obtain l where "t = Joinable l" by (cases t) (simp_all add: live_listener_def)
  moreover have "map_of (strandThreads s) k = Some t"
    using assms(1) t by (simp add: well_formed_def ordered_map_of)
  ultimately show ?thesis by simp
qed

lemma disconnectSlot_impl:
  assumes "disconnectSlot m i = Returns () m'" and "findSlotMapWithId (impl m) i = Some sm"
  shows "impl m' =
    (if sm = StrandSlots then
       (impl m)\<lparr>strandThreads := erase i (strandThreads (impl m)),
                 strandQueues := erase i (strandQueues (impl m)),
                 strandSlots := erase i (strandSlots (impl m))\<rparr>
     else update_slots sm (erase i) (impl m))"
proof (cases "sm = StrandSlots")
  case False
  then show ?thesis using assms by (auto simp: disconnectSlot_def erase_slot_def)
next
  case True
  let ?m0 = "set_impl (\<lambda>s. s\<lparr>strandThreads := emplace i NotAThread (strandThreads s)\<rparr>)
      (enqueue_strand i NullTask m)"
  obtain m1 where j: "join_entry i ?m0 = Returns () m1"
    and m': "m' = erase_slot StrandSlots i
       (emit_event [QueueDestroy i] (set_impl (\<lambda>s. s\<lparr>strandQueues := erase i (strandQueues s)\<rparr>)
         (emit_event [ThreadDestroy i] (set_impl (\<lambda>s. s\<lparr>strandThreads := erase i (strandThreads s)\<rparr>) m1))))"
    using assms True
    by (auto simp: disconnectSlot_def join_strand_def Let_def split: outcome.splits)
  from join_entry_Returns [OF j] obtain q' where
    "impl m1 = (impl ?m0)\<lparr>strandQueues := modify i (\<lambda>_. q') (strandQueues (impl ?m0)),
                           strandThreads := modify i (\<lambda>_. NotAThread) (strandThreads (impl ?m0))\<rparr>"
    by blast
  then show ?thesis using True m'
    by (simp add: erase_slot_def)
qed

lemma disconnectSlot_Fails:
  assumes "disconnectSlot m i = Fails e m'" and "well_formed (impl m)"
  shows "\<not> recoverable e"
proof -
  let ?m0 = "set_impl (\<lambda>s. s\<lparr>strandThreads := emplace i NotAThread (strandThreads s)\<rparr>)
      (enqueue_strand i NullTask m)"
  have f: "findSlotMapWithId (impl m) i = Some StrandSlots" and j: "join_entry i ?m0 = Fails e m'"
    using assms(1)
    by (auto simp: disconnectSlot_def join_strand_def Let_def split: outcome.splits option.splits if_splits)
  have "i \<in> set (keys (strandThreads (impl m)))"
    using findSlotMapWithId_Some [OF f] assms(2) by (simp add: map_count_keys well_formed_def)
  then have "strandThreads (impl ?m0) = strandThreads (impl m)"
    and "\<exists>l. map_of (strandThreads (impl m)) i = Some (Joinable l)"
    using well_formed_joinable [OF assms(2)] by (simp_all add: emplace_def map_count_keys)
  then have "e \<noteq> system_error" using join_entry_Fails [OF j] by auto
  moreover have "e = system_error \<or> e = would_block \<or> e = terminate"
    using j by (auto simp: join_entry_def split: option.splits std_thread.splits listener_result.splits)
  ultimately show ?thesis by auto
qed

lemma well_formed_disconnectSlot:
  assumes "well_formed (impl m)" and "disconnectSlot m i = Returns () m'"
  shows "well_formed (impl m')"
proof (cases "findSlotMapWithId (impl m) i")
  case None
  then show ?thesis using assms by (simp add: disconnectSlot_def)
next
  case (Some sm)
  show ?thesis
    using assms(1) disconnectSlot_impl [OF assms(2) Some]
    by (cases sm)
       (simp_all add: well_formed_def ordered_erase keys_erase list_all_erase)
qed

lemma well_formed_clear_all: "well_formed (impl (clear_all m))"
  by (simp add: clear_all_def Let_def well_formed_def)

lemma for_each_join_entry_Fails:
  assumes "for_each join_entry ks m = Fails system_error m'" and "distinct ks"
  shows "\<exists>k \<in> set ks. \<forall>l. map_of (strandThreads (impl m)) k \<noteq> Some (Joinable l)"
  using assms
proof (induction ks arbitrary: m)
  case Nil
  then show ?case by simp
next
  case (Cons k ks)
  show ?case
  proof (cases "join_entry k m")
    case (Fails e m1)
    then have "e = system_error" using Cons.prems by simp
    then show ?thesis using join_entry_Fails [of k m e m1] Fails by simp
  next
    case (Returns u m1)
    then have "for_each join_entry ks m1 = Fails system_error m'"
      using Cons.prems by simp
    from Cons.IH [OF this] Cons.prems(2) obtain k' where
      k': "k' \<in> set ks" "\<forall>l. map_of (strandThreads (impl m1)) k' \<noteq> Some (Joinable l)"
      by auto
    have "k' \<noteq> k" using k' Cons.prems(2) by auto
    then have "map_of (strandThreads (impl m1)) k' = map_of (strandThreads (impl m)) k'"
      using join_entry_Returns [of k m m1] Returns by (auto simp: map_of_modify)
    then show ?thesis using k' by auto
  qed
qed

lemma fold_enqueue_entry_threads [simp]:
  "strandThreads (impl (fold (\<lambda>i. enqueue_entry i t) ks m)) = strandThreads (impl m)"
  by (induction ks arbitrary: m) simp_all

lemma disconnectAllSlots_Fails:
  assumes "disconnectAllSlots m = Fails e m'" and "well_formed (impl m)"
  shows "\<not> recoverable e"
proof -
  let ?m1 = "fold (\<lambda>i. enqueue_entry i NullTask) (keys (strandQueues (impl m))) m"
  have f: "for_each join_entry (keys (strandThreads (impl m))) ?m1 = Fails e m'"
    using assms(1) by (auto simp: disconnectAllSlots_def Let_def split: outcome.splits)
  have d: "distinct (keys (strandThreads (impl m)))"
    using assms(2) by (simp add: well_formed_def ordered_iff)
  have "e \<noteq> system_error"
  proof
    assume "e = system_error"
    with for_each_join_entry_Fails [OF _ d] f obtain k where
      "k \<in> set (keys (strandThreads (impl m)))"
      "\<forall>l. map_of (strandThreads (impl m)) k \<noteq> Some (Joinable l)"
      by fastforce
    then show False using well_formed_joinable [OF assms(2)] by blast
  qed
  moreover have "for_each join_entry ks x = Fails e y \<Longrightarrow>
      e = system_error \<or> e = would_block \<or> e = terminate" for ks x y
  proof (induction ks arbitrary: x)
    case Nil
    then show ?case by simp
  next
    case (Cons k ks)
    then show ?case
      by (cases "join_entry k x")
         (auto simp: join_entry_def split: option.splits std_thread.splits listener_result.splits)
  qed
  ultimately show ?thesis using f by fastforce
qed

lemma well_formed_disconnectAllSlots:
  assumes "disconnectAllSlots m = Returns () m'"
  shows "well_formed (impl m')"
  using assms
  by (auto simp: disconnectAllSlots_def Let_def well_formed_clear_all split: outcome.splits)

lemma well_formed_enqueue_strand:
  assumes "well_formed (impl m)" and "i \<in> set (keys (strandSlots (impl m)))" and "t \<noteq> NullTask"
  shows "well_formed (impl (enqueue_strand i t m))"
proof -
  have k: "i \<in> set (keys (strandQueues (impl m)))"
    using assms by (simp add: well_formed_def)
  then have e: "emplace i [] (strandQueues (impl m)) = strandQueues (impl m)"
    by (simp add: emplace_def map_count_keys)
  have "list_all (\<lambda>e. NullTask \<notin> set (snd e))
      (modify i (enqueue t) (strandQueues (impl m)))"
    using assms by (intro list_all_modify) (auto simp: well_formed_def list_all_iff enqueue_def)
  then show ?thesis using assms(1) by (simp add: e well_formed_def)
qed

lemma well_formed_enqueued:
  assumes "well_formed (impl m)" and "set (keys xs) \<subseteq> set (keys (strandSlots (impl m)))"
  shows "well_formed (impl (enqueued p xs m))"
  using assms
proof (induction xs arbitrary: m)
  case Nil
  then show ?case by (simp add: enqueued_def)
next
  case (Cons x xs)
  let ?m1 = "enqueue_strand (fst x) (BoundCall (fst x) (snd x) p) m"
  have 1: "well_formed (impl ?m1)"
    using Cons.prems by (intro well_formed_enqueue_strand) (simp_all add: keys_def)
  have 2: "strandSlots (impl ?m1) = strandSlots (impl m)" by simp
  have "well_formed (impl (enqueued p xs ?m1))"
    using Cons.prems(2) by (intro Cons.IH [OF 1]) (simp add: 2 keys_def)
  then show ?case by (simp add: enqueued_def)
qed

lemma well_formed_emitted:
  "well_formed (impl m) \<Longrightarrow> well_formed (impl (emitted p m))"
  unfolding emitted_def
  by (simp, rule well_formed_enqueued) simp_all

lemma for_each_runSynchronous_impl:
  "impl (state_of (for_each (\<lambda>slot. runSynchronous (fst slot) (snd slot) p) xs m)) = impl m"
  by (rule for_each_invariant [where P = "\<lambda>x. impl x = impl m"])
     (simp_all add: runSynchronous_frame)

lemma emitSignalUnsafe_Fails_impl:
  assumes "emitSignalUnsafe m p = Fails e m'"
  shows "\<exists>c d. impl m' = (impl m)\<lparr>semCounter := c, detachedThreads := d\<rparr>"
proof -
  let ?L1 = "for_each (\<lambda>slot. runSynchronous (fst slot) (snd slot) p) (synchronousSlots (impl m)) m"
  show ?thesis
  proof (cases ?L1)
    case (Fails e1 m1)
    then have "m1 = m'" using assms by (simp add: emitSignalUnsafe_def)
    then have "impl m' = impl m"
      using for_each_runSynchronous_impl [of p "synchronousSlots (impl m)" m] Fails by simp
    then have "impl m' = (impl m)\<lparr>semCounter := semCounter (impl m),
        detachedThreads := detachedThreads (impl m)\<rparr>" by simp
    then show ?thesis by blast
  next
    case (Returns u m1)
    have m1: "impl m1 = impl m"
      using for_each_runSynchronous_impl [of p "synchronousSlots (impl m)" m] Returns by simp
    let ?L2 = "for_each (\<lambda>slot. runAsynchronous (fst slot) (snd slot) p) (asynchronousSlots (impl m1)) m1"
    show ?thesis
    proof (cases ?L2)
      case (Fails e2 m2)
      then have "m2 = m'" using assms Returns by (simp add: emitSignalUnsafe_def)
      with for_each_runAsynchronous_Fails [of p "asynchronousSlots (impl m1)" m1 e2 m'] Fails
      obtain n where "m' = spawned p (take n (asynchronousSlots (impl m1))) m1"
        by blast
      then show ?thesis using m1 by auto
    next
      case (Returns u2 m2)
      then have "emitSignalUnsafe m p =
          Returns () (pooled p (threadPooledSlots (impl (enqueued p (strandSlots (impl m2)) m2)))
             (enqueued p (strandSlots (impl m2)) m2))"
        using \<open>?L1 = Returns u m1\<close>
        by (simp add: emitSignalUnsafe_def for_each_runStrands for_each_runThreadPooled)
      then show ?thesis using assms by simp
    qed
  qed
qed

lemma well_formed_emitSignal: "well_formed (impl m) \<Longrightarrow> well_formed (impl (state_of (emitSignal m p)))"
proof -
  assume wf: "well_formed (impl m)"
  have "well_formed (impl (state_of (emitSignalUnsafe m p)))"
  proof (cases "emitSignalUnsafe m p")
    case (Returns u m')
    then show ?thesis using emitSignalUnsafe_Returns(1) [of m p m'] wf
      by (simp add: well_formed_emitted)
  next
    case (Fails e m')
    then show ?thesis using emitSignalUnsafe_Fails_impl [of m p e m'] wf by auto
  qed
  then show ?thesis by (simp add: emitSignal_def emitSignalThreadSafe_def)
qed

lemma call_if_set_task: "t \<noteq> NullTask \<Longrightarrow> call_if_set i t = ([ListenerCall i t], run_task t)"
  by (cases t) simp_all

lemma blockingDequeue_step_live:
  assumes "blockingDequeue_step i q l es0 = Runs q' l' es"
    and "NullTask \<notin> set q" and "func l \<noteq> NullTask"
  shows "NullTask \<notin> set q' \<and> pc l' \<noteq> Finished \<and> func l' \<noteq> NullTask"
proof (cases q)
  case Nil
  then show ?thesis using assms by (auto simp: blockingDequeue_step_def)
next
  case (Cons t q0)
  then have "t \<noteq> NullTask" using assms(2) by auto
  then show ?thesis using assms Cons
    by (auto simp: blockingDequeue_step_def loop_test_def call_if_set_task split: option.splits)
qed

lemma wait_check_live:
  assumes "wait_check maxW i q l es0 = Runs q' l' es"
    and "NullTask \<notin> set q" and "func l \<noteq> NullTask"
  shows "NullTask \<notin> set q' \<and> pc l' \<noteq> Finished \<and> func l' \<noteq> NullTask"
proof (cases "waitTime l > maxW")
  case True
  then show ?thesis using assms blockingDequeue_step_live [of i q l es0 q' l' es]
    by (simp add: wait_check_def)
next
  case False
  then show ?thesis using assms by (auto simp: wait_check_def loop_test_def)
qed

lemma loop_body_live:
  assumes "loop_body maxW i q l = Runs q' l' es"
    and "NullTask \<notin> set q" and "func l \<noteq> NullTask"
  shows "NullTask \<notin> set q' \<and> pc l' \<noteq> Finished \<and> func l' \<noteq> NullTask"
proof (cases q)
  case Nil
  then have "wait_check maxW i q (l\<lparr>waitTime := 2 * waitTime l\<rparr>) [ListenerSleep i (waitTime l)]
      = Runs q' l' es"
    using assms(1) by (simp add: loop_body_def)
  from wait_check_live [OF this] show ?thesis using assms by simp
next
  case (Cons t q0)
  then have t: "t \<noteq> NullTask" "NullTask \<notin> set q0" using assms(2) by auto
  then have "wait_check maxW i q0 (l\<lparr>func := t, waitTime := 1\<rparr>) [ListenerCall i t] = Runs q' l' es"
    using assms(1) Cons by (auto simp: loop_body_def call_if_set_task split: option.splits)
  from wait_check_live [OF this] show ?thesis using t by simp
qed

lemma listener_step_live:
  assumes "listener_step maxW i q l = Runs q' l' es"
    and "NullTask \<notin> set q" and "pc l \<noteq> Finished" and "func l \<noteq> NullTask"
  shows "NullTask \<notin> set q' \<and> pc l' \<noteq> Finished \<and> func l' \<noteq> NullTask"
proof (cases "pc l")
  case AtLoopHead
  then show ?thesis using assms loop_body_live [of maxW i q l q' l' es]
    by (simp add: listener_step_def)
next
  case InBlockingDequeue
  then show ?thesis using assms blockingDequeue_step_live [of i q l "[]" q' l' es]
    by (simp add: listener_step_def)
next
  case Finished
  then show ?thesis using assms by simp
qed

lemma well_formed_queue_of:
  assumes "well_formed s"
  shows "NullTask \<notin> set (queue_of i s)"
proof (cases "map_of (strandQueues s) i")
  case None
  then show ?thesis by (simp add: queue_of_def)
next
  case (Some q)
  then have "(i, q) \<in> set (strandQueues s)" by (rule map_of_SomeD)
  then have "NullTask \<notin> set q" using assms by (auto simp: well_formed_def list_all_iff)
  then show ?thesis using Some by (simp add: queue_of_def)
qed

lemma well_formed_listener_runs:
  assumes "well_formed (impl m)" and "listener_runs i m = Returns () m'"
  shows "well_formed (impl m')"
proof (cases "\<exists>l. map_of (strandThreads (impl m)) i = Some (Joinable l)")
  case False
  then have "m' = m" using assms(2)
    by (auto simp: listener_runs_def split: option.splits std_thread.splits)
  then show ?thesis using assms(1) by simp
next
  case True
  then obtain l where l: "map_of (strandThreads (impl m)) i = Some (Joinable l)" by blast
  then obtain q' l' es where
    st: "listener_step (getMaxWait (pool m)) i (queue_of i (impl m)) l = Runs q' l' es"
    and m': "impl m' = (impl m)\<lparr>strandQueues := modify i (\<lambda>_. q') (strandQueues (impl m)),
          strandThreads := modify i (\<lambda>_. Joinable l') (strandThreads (impl m))\<rparr>"
    using assms(2) by (auto simp: listener_runs_def split: listener_result.splits)
  have "live_listener (Joinable l)"
    using assms(1) map_of_SomeD [OF l] by (auto simp: well_formed_def list_all_iff)
  then have live: "NullTask \<notin> set q' \<and> pc l' \<noteq> Finished \<and> func l' \<noteq> NullTask"
    using listener_step_live [OF st well_formed_queue_of [OF assms(1)]]
    by (simp add: live_listener_def)
  have "list_all (\<lambda>e. NullTask \<notin> set (snd e)) (modify i (\<lambda>_. q') (strandQueues (impl m)))"
    using assms(1) live by (intro list_all_modify) (simp_all add: well_formed_def)
  moreover have "list_all (\<lambda>e. live_listener (snd e))
      (modify i (\<lambda>_. Joinable l') (strandThreads (impl m)))"
    using assms(1) live by (intro list_all_modify) (simp_all add: well_formed_def live_listener_def)
  ultimately show ?thesis using assms(1) by (simp add: m' well_formed_def)
qed

lemma well_formed_detached_finishes:
  "well_formed (impl m) \<Longrightarrow> well_formed (impl (state_of (detached_finishes k m)))"
  by (auto simp: detached_finishes_def split: prod.splits slot_function.splits option.splits)

lemma listener_runs_Fails: "listener_runs i m = Fails e m' \<Longrightarrow> e = terminate"
  by (auto simp: listener_runs_def split: option.splits std_thread.splits listener_result.splits)

lemma detached_finishes_Fails: "detached_finishes k m = Fails e m' \<Longrightarrow> e = terminate"
  by (auto simp: detached_finishes_def
      split: if_splits prod.splits slot_function.splits option.splits)

lemma connectSlot_Fails: "connectSlot m scheme slot = Fails e m' \<Longrightarrow> e = terminate"
  by (auto simp: connectSlot_def Let_def split: if_splits)

lemma well_formed_step:
  assumes "well_formed (impl m)"
    and "step m x = Returns r m' \<or> (step m x = Fails e m' \<and> recoverable e)"
  shows "well_formed (impl m')"
proof (cases x)
  case (Connect scheme slot)
  then show ?thesis
    using assms well_formed_connectSlot [OF assms(1), of scheme slot] connectSlot_Fails [of m scheme slot]
    by (cases "connectSlot m scheme slot") auto
next
  case (Disconnect i)
  then show ?thesis
    using assms well_formed_disconnectSlot [OF assms(1), of i] disconnectSlot_Fails [of m i]
    by (cases "disconnectSlot m i") auto
next
  case DisconnectAll
  then show ?thesis
    using assms well_formed_disconnectAllSlots [of m] disconnectAllSlots_Fails [of m]
    by (cases "disconnectAllSlots m") auto
next
  case (Emit p)
  then show ?thesis
    using assms well_formed_emitSignal [OF assms(1), of p]
    by (cases "emitSignal m p") auto
next
  case (ListenerRuns i)
  then show ?thesis
    using assms well_formed_listener_runs [OF assms(1), of i] listener_runs_Fails [of i m]
    by (cases "listener_runs i m") auto
next
  case (DetachedFinishes k)
  then show ?thesis
    using assms well_formed_detached_finishes [OF assms(1), of k]
    by (cases "detached_finishes k m") auto
qed

lemma well_formed_run:
  "run m xs = Some m' \<Longrightarrow> well_formed (impl m) \<Longrightarrow> well_formed (impl m')"
proof (induction xs arbitrary: m)
  case Nil
  then show ?case by simp
next
  case (Cons x xs)
  show ?case
  proof (cases "step m x")
    case (Returns r m1)
    then have "well_formed (impl m1)" using well_formed_step [OF Cons.prems(2), of x r m1] by simp
    then show ?thesis using Cons Returns by simp
  next
    case (Fails e m1)
    then have r: "recoverable e" "run m1 xs = Some m'"
      using Cons.prems(1) by (auto split: if_splits)
    then have "well_formed (impl m1)"
      using well_formed_step [OF Cons.prems(2), of x undefined m1 e] Fails by simp
    then show ?thesis using Cons.IH r by simp
  qed
qed

lemma well_formed_reachable: "run (fresh mw g c) xs = Some m \<Longrightarrow> well_formed (impl m)"
  by (erule well_formed_run) (simp add: fresh_def well_formed_construct)





lemma emitSignal_unsafe: "emitSignal m p = emitSignalUnsafe m p"
  by (simp add: emitSignal_def emitSignalThreadSafe_def)



subsection \<open>The id counter\<close>

lemma currentId_connectSlot:
  "currentId (impl (state_of (connectSlot m scheme slot))) = currentId (impl m) + 1"
  by (cases "getSlotMap scheme") (simp_all add: connectSlot_def Let_def)

lemma connectSlot_result:
  "connectSlot m scheme slot = Returns r m' \<Longrightarrow> r = sint (currentId (impl m))"
  by (auto simp: connectSlot_def Let_def split: if_splits)

lemma connectSlot_not_STRAND:
  "scheme \<noteq> STRAND \<Longrightarrow> \<exists>m'. connectSlot m scheme slot = Returns (sint (currentId (impl m))) m'"
  by (simp add: connectSlot_def Let_def)

lemma currentId_disconnectSlot:
  "currentId (impl (state_of (disconnectSlot m i))) = currentId (impl m)"
proof (cases "findSlotMapWithId (impl m) i")
  case None
  then show ?thesis by (simp add: disconnectSlot_def)
next
  case (Some sm)
  show ?thesis
  proof (cases "sm = StrandSlots")
    case False
    then show ?thesis using Some by (simp add: disconnectSlot_def erase_slot_def)
  next
    case True
    have "currentId (impl (state_of (join_strand i (enqueue_strand i NullTask m)))) = currentId (impl m)"
      using join_strand_frame [of StrandSlots i "enqueue_strand i NullTask m"] by simp
    then show ?thesis using Some True
      by (cases "join_strand i (enqueue_strand i NullTask m)")
         (simp_all add: disconnectSlot_def erase_slot_def Let_def)
  qed
qed

lemma fold_enqueue_entry_currentId [simp]:
  "currentId (impl (fold (\<lambda>i. enqueue_entry i t) ks m)) = currentId (impl m)"
  by (induction ks arbitrary: m) simp_all

lemma currentId_disconnectAllSlots:
  "currentId (impl (state_of (disconnectAllSlots m))) = currentId (impl m)"
proof -
  let ?m1 = "fold (\<lambda>i. enqueue_entry i NullTask) (keys (strandQueues (impl m))) m"
  let ?r = "for_each join_entry (keys (strandThreads (impl ?m1))) ?m1"
  have "currentId (impl (state_of ?r)) = currentId (impl m)"
    by (rule for_each_invariant [where P = "\<lambda>x. currentId (impl x) = currentId (impl m)"])
       (simp_all add: join_entry_frame)
  then show ?thesis
    by (cases ?r) (simp_all add: disconnectAllSlots_def Let_def clear_all_def)
qed

lemma currentId_listener_runs:
  "currentId (impl (state_of (listener_runs i m))) = currentId (impl m)"
  by (auto simp: listener_runs_def split: option.splits std_thread.splits listener_result.splits)

lemma currentId_detached_finishes:
  "currentId (impl (state_of (detached_finishes k m))) = currentId (impl m)"
  by (auto simp: detached_finishes_def split: prod.splits slot_function.splits option.splits)

lemma state_of_with_result [simp]: "state_of (with_result f r) = state_of r"
  by (cases r) simp_all

lemma currentId_step:
  "currentId (impl (state_of (step m x))) =
     (if is_connect x then currentId (impl m) + 1 else currentId (impl m))"
  using emitSignal_frame [of m]
  by (cases x)
     (simp_all add: currentId_connectSlot currentId_disconnectSlot currentId_disconnectAllSlots
        currentId_listener_runs currentId_detached_finishes registrations_def)

lemma step_Returns_Some:
  "step m x = Returns (Some i) m' \<Longrightarrow> is_connect x \<and> i = sint (currentId (impl m))"
proof (cases x)
  case (Connect scheme slot)
  assume "step m x = Returns (Some i) m'"
  then show ?thesis using Connect connectSlot_result [of m scheme slot i m']
    by (cases "connectSlot m scheme slot") simp_all
next
  case (Disconnect j)
  assume "step m x = Returns (Some i) m'"
  then show ?thesis using Disconnect by (cases "disconnectSlot m j") simp_all
next
  case DisconnectAll
  assume "step m x = Returns (Some i) m'"
  then show ?thesis using DisconnectAll by (cases "disconnectAllSlots m") simp_all
next
  case (Emit p)
  assume "step m x = Returns (Some i) m'"
  then show ?thesis using Emit by (cases "emitSignal m p") simp_all
next
  case (ListenerRuns j)
  assume "step m x = Returns (Some i) m'"
  then show ?thesis using ListenerRuns by (cases "listener_runs j m") simp_all
next
  case (DetachedFinishes k)
  assume "step m x = Returns (Some i) m'"
  then show ?thesis using DetachedFinishes by (cases "detached_finishes k m") simp_all
qed

lemma step_Returns_None: "step m x = Returns None m' \<Longrightarrow> \<not> is_connect x"
proof (cases x)
  case (Connect scheme slot)
  assume "step m x = Returns None m'"
  then show ?thesis using Connect by (cases "connectSlot m scheme slot") simp_all
qed simp_all

lemma step_Fails_recoverable: "step m x = Fails e m' \<Longrightarrow> recoverable e \<Longrightarrow> \<not> is_connect x"
proof (cases x)
  case (Connect scheme slot)
  assume "step m x = Fails e m'" "recoverable e"
  then show ?thesis using Connect connectSlot_Fails [of m scheme slot e m']
    by (cases "connectSlot m scheme slot") auto
qed simp_all

text \<open>The ids a run returns are consecutive values of the counter, read as \<^verbatim>\<open>int\<close>.\<close>

lemma returned_ids_consecutive:
  "returned_ids m xs =
     map (\<lambda>j. sint (currentId (impl m) + of_nat j)) [0..<length (returned_ids m xs)] \<and>
   length (returned_ids m xs) \<le> length (filter is_connect xs)"
proof (induction xs arbitrary: m)
  case Nil
  then show ?case by simp
next
  case (Cons x xs)
  show ?case
  proof (cases "step m x")
    case (Returns r m')
    have c: "currentId (impl m') =
        (if is_connect x then currentId (impl m) + 1 else currentId (impl m))"
      using currentId_step [of m x] Returns by simp
    show ?thesis
    proof (cases r)
      case None
      then have "\<not> is_connect x" using step_Returns_None Returns by blast
      then show ?thesis using Cons.IH [of m'] Returns None c by simp
    next
      case (Some i)
      then have i: "is_connect x" "i = sint (currentId (impl m))"
        using step_Returns_Some [of m x i m'] Returns by simp_all
      let ?n = "length (returned_ids m' xs)"
      have "returned_ids m (x # xs) = i # returned_ids m' xs"
        using Returns Some by simp
      also have "returned_ids m' xs = map (\<lambda>j. sint (currentId (impl m) + 1 + of_nat j)) [0..<?n]"
        using Cons.IH [of m'] c i by simp
      also have "i # map (\<lambda>j. sint (currentId (impl m) + 1 + of_nat j)) [0..<?n] =
          map (\<lambda>j. sint (currentId (impl m) + of_nat j)) [0..<Suc ?n]"
        by (simp add: i map_upt_Suc add.assoc del: upt_Suc)
      finally have "returned_ids m (x # xs) =
          map (\<lambda>j. sint (currentId (impl m) + of_nat j)) [0..<Suc ?n]" .
      moreover have "length (returned_ids m (x # xs)) = Suc ?n"
        using Returns Some by simp
      ultimately show ?thesis using Cons.IH [of m'] i by simp
    qed
  next
    case (Fails e m')
    show ?thesis
    proof (cases "recoverable e")
      case False
      then show ?thesis using Fails by simp
    next
      case True
      then have n: "\<not> is_connect x" using step_Fails_recoverable Fails by blast
      then have "currentId (impl m') = currentId (impl m)"
        using currentId_step [of m x] Fails by simp
      then show ?thesis using Cons.IH [of m'] Fails True n by simp
    qed
  qed
qed

lemma returned_ids_all_synchronous:
  "returned_ids m (replicate n (Connect SYNCHRONOUS slot)) =
     map (\<lambda>j. sint (currentId (impl m) + of_nat j)) [0..<n]"
proof -
  have len: "length (returned_ids m (replicate n (Connect SYNCHRONOUS slot))) = n" for m
  proof (induction n arbitrary: m)
    case 0
    then show ?case by simp
  next
    case (Suc n)
    obtain m' where "connectSlot m SYNCHRONOUS slot = Returns (sint (currentId (impl m))) m'"
      using connectSlot_not_STRAND [of SYNCHRONOUS m slot] by (auto simp: SYNCHRONOUS_def STRAND_def)
    then show ?case using Suc [of m'] by simp
  qed
  show ?thesis using returned_ids_consecutive [of m "replicate n (Connect SYNCHRONOUS slot)"]
    by (simp add: len)
qed

lemma sint_of_nat_small: "j < 2 ^ 31 \<Longrightarrow> sint (of_nat j :: 32 word) = int j"
  by (simp add: signed_of_nat signed_take_bit_int_eq_self)

lemma sint_of_nat_inj:
  "a < 2 ^ 32 \<Longrightarrow> b < 2 ^ 32 \<Longrightarrow> sint (of_nat a :: 32 word) = sint (of_nat b :: 32 word) \<Longrightarrow> a = b"
proof -
  assume a: "a < 2 ^ 32" and b: "b < 2 ^ 32"
    and s: "sint (of_nat a :: 32 word) = sint (of_nat b :: 32 word)"
  from s have "(of_nat a :: 32 word) = of_nat b" by (rule signed_word_eqI)
  then have "a mod 2 ^ 32 = b mod 2 ^ 32"
    by (simp add: word_of_nat_eq_iff take_bit_eq_mod)
  then show "a = b" using a b by simp
qed

lemma sorted_ints: "sorted_wrt (<) (map int [0..<n])"
  by (simp add: sorted_wrt_map sorted_wrt_iff_nth_less)

text \<open>
  Claim C2, as the code has it.  \<^verbatim>\<open>currentId\<close> is a \<^verbatim>\<open>uint32_t\<close> that wraps and
  \<^verbatim>\<open>connectSlot\<close> returns it cast to \<^verbatim>\<open>int\<close>.  In a run of a fresh engine with at most
  \<open>2^31\<close> \<^verbatim>\<open>connectSlot\<close> calls, whatever their schemes and whatever other operations come
  in between (disconnects included), the ids returned are \<open>0, 1, 2, \<dots>\<close> in call order:
  strictly increasing, so pairwise distinct and never reused.  With at most \<open>2^32\<close>
  calls they are still pairwise distinct.
\<close>

theorem connect_ids_increase:
  "(length (filter is_connect xs) \<le> 2 ^ 31 \<longrightarrow>
      returned_ids (fresh mw g c) xs = map int [0..<length (returned_ids (fresh mw g c) xs)] \<and>
      sorted_wrt (<) (returned_ids (fresh mw g c) xs)) \<and>
   (length (filter is_connect xs) \<le> 2 ^ 32 \<longrightarrow> distinct (returned_ids (fresh mw g c) xs))"
proof (intro conjI impI)
  let ?ids = "returned_ids (fresh mw g c) xs"
  have z: "currentId (impl (fresh mw g c)) = 0" by (simp add: fresh_def construct_def)
  have ids: "?ids = map (\<lambda>j. sint (of_nat j :: 32 word)) [0..<length ?ids]"
    and len: "length ?ids \<le> length (filter is_connect xs)"
    using returned_ids_consecutive [of "fresh mw g c" xs] by (simp_all add: z)
  {
    assume "length (filter is_connect xs) \<le> 2 ^ 31"
    then have "\<forall>j \<in> set [0..<length ?ids]. sint (of_nat j :: 32 word) = int j"
      using len by (auto intro!: sint_of_nat_small)
    then have "map (\<lambda>j. sint (of_nat j :: 32 word)) [0..<length ?ids] = map int [0..<length ?ids]"
      by (intro map_cong) simp_all
    then show e: "?ids = map int [0..<length ?ids]" using ids by simp
    show "sorted_wrt (<) ?ids" using sorted_ints [of "length ?ids"] e by simp
  }
  {
    assume "length (filter is_connect xs) \<le> 2 ^ 32"
    then have "inj_on (\<lambda>j. sint (of_nat j :: 32 word)) (set [0..<length ?ids])"
      using len by (auto intro!: inj_onI sint_of_nat_inj)
    then have "distinct (map (\<lambda>j. sint (of_nat j :: 32 word)) [0..<length ?ids])"
      by (simp add: distinct_map)
    then show "distinct ?ids" using ids by simp
  }
qed

theorem connect_ids_increase_witness:
  "length (filter is_connect
      [Connect SYNCHRONOUS (Target (\<lambda>_. Returned)), Connect STRAND (Target (\<lambda>_. Returned)),
       Disconnect 0, Emit (3::nat), Connect ASYNCHRONOUS (Target (\<lambda>_. Returned))]) \<le> 2 ^ 31 \<and>
   returned_ids (fresh 1000 False 1024)
      [Connect SYNCHRONOUS (Target (\<lambda>_. Returned)), Connect STRAND (Target (\<lambda>_. Returned)),
       Disconnect 0, Emit (3::nat), Connect ASYNCHRONOUS (Target (\<lambda>_. Returned))] = [0, 1, 2] \<and>
   sorted_wrt (<) [0, 1, 2 :: int] \<and> distinct [0, 1, 2 :: int]"
proof -
  let ?xs = "[Connect SYNCHRONOUS (Target (\<lambda>_. Returned)), Connect STRAND (Target (\<lambda>_. Returned)),
       Disconnect 0, Emit (3::nat), Connect ASYNCHRONOUS (Target (\<lambda>_. Returned))]"
  have n: "length (filter is_connect ?xs) \<le> 2 ^ 31" by simp
  have r: "returned_ids (fresh 1000 False 1024) ?xs = [0, 1, 2]"
    by (simp add: engine_defs)
  have "sorted_wrt (<) (returned_ids (fresh 1000 False 1024) ?xs) \<and>
      distinct (returned_ids (fresh 1000 False 1024) ?xs)"
    using connect_ids_increase [of ?xs 1000 False 1024] n by simp
  then show ?thesis using n r by simp
qed

theorem connect_ids_wrap_counterexample:
  "\<not> sorted_wrt (<)
      (returned_ids (fresh 1000 False 1024 :: nat machine)
         (replicate 2147483649 (Connect SYNCHRONOUS EmptyFunction)))"
proof
  let ?ids = "returned_ids (fresh 1000 False 1024 :: nat machine)
         (replicate 2147483649 (Connect SYNCHRONOUS EmptyFunction))"
  assume s: "sorted_wrt (<) ?ids"
  have ids: "?ids = map (\<lambda>j. sint (of_nat j :: 32 word)) [0..<2147483649]"
    using returned_ids_all_synchronous [of "fresh 1000 False 1024 :: nat machine" 2147483649 EmptyFunction]
    by (simp add: fresh_def construct_def)
  have "?ids ! 0 < ?ids ! 2147483648"
    by (rule sorted_wrt_nth_less [OF s]) (simp_all add: ids)
  moreover have "?ids ! 0 = 0" unfolding ids by (subst nth_map_upt) simp_all
  moreover have "?ids ! 2147483648 = sint (2147483648 :: 32 word)"
    unfolding ids by (subst nth_map_upt) simp_all
  moreover have "sint (2147483648 :: 32 word) = - 2147483648" by simp
  ultimately show False by simp
qed

subsection \<open>The listener loop\<close>

lemma call_if_set_cases:
  "call_if_set i t = (if t = NullTask then ([], None) else ([ListenerCall i t], run_task t))"
  by (cases t) simp_all

lemma blockingDequeue_step_spec:
  "blockingDequeue_step i q l es = spec_blocking_dequeue i q l es"
  by (cases q)
     (auto simp: blockingDequeue_step_def spec_blocking_dequeue_def spec_run_and_reset_def
        call_if_set_cases loop_test_def split: option.splits)

lemma loop_body_spec:
  assumes "1 \<le> maxW" and "func l \<noteq> NullTask" and "pc l = AtLoopHead"
  shows "loop_body maxW i q l = spec_worker_step maxW i q l"
proof (cases q)
  case Nil
  then show ?thesis using assms
    by (simp add: loop_body_def wait_check_def spec_worker_step_def blockingDequeue_step_spec
        spec_blocking_dequeue_def loop_test_def)
next
  case (Cons t q')
  then show ?thesis using assms
    by (auto simp: loop_body_def wait_check_def spec_worker_step_def spec_run_and_reset_def
        call_if_set_cases loop_test_def split: option.splits)
qed

text \<open>
  Claim C4.  When the configured maximum is at least the minimum wait of one nanosecond,
  each stretch of \<^verbatim>\<open>queueListener\<close> between two loop tests is the step the specification
  words: a non-blocking dequeue; on success the task is run (on the shutdown message the
  loop ends) and the wait time is one again; on an empty queue the thread sleeps for the
  wait time and doubles it, and once it exceeds the maximum the thread goes into a
  blocking dequeue, runs what it gets (or ends on shutdown) and the wait time is one again.
  \<^verbatim>\<open>queueListener\<close> repeats this step until the loop ends.
\<close>

theorem listener_follows_specified_loop:
  assumes "1 \<le> maxW" and "func l \<noteq> NullTask"
  shows "listener_step maxW i q l = spec_worker_step maxW i q l \<and>
    queueListener maxW i q l =
      (if pc l = Finished then Some (Runs q l [])
       else if pc l = InBlockingDequeue \<and> q = [] then None
       else (case spec_worker_step maxW i q l of
               Aborts es \<Rightarrow> Some (Aborts es)
             | Runs q' l' es \<Rightarrow>
                 Option.bind (queueListener maxW i q' l') (\<lambda>r. Some (prepend es r))))"
proof -
  have 1: "listener_step maxW i q l = spec_worker_step maxW i q l"
  proof (cases "pc l")
    case AtLoopHead
    then show ?thesis using loop_body_spec [OF assms, of i q]
      by (simp add: listener_step_def)
  next
    case InBlockingDequeue
    then show ?thesis
      by (simp add: listener_step_def spec_worker_step_def blockingDequeue_step_spec)
  next
    case Finished
    then show ?thesis by (simp add: listener_step_def spec_worker_step_def)
  qed
  show ?thesis
    by (subst queueListener.simps) (simp add: 1)
qed

theorem listener_follows_specified_loop_witness:
  "(1::nat) \<le> 1000 \<and> func (initial_listener :: nat listener) \<noteq> NullTask \<and>
   listener_step 1000 2 [BoundCall 2 (Target (\<lambda>_. Returned)) (7::nat)] initial_listener =
     Runs [] \<lparr>func = BoundCall 2 (Target (\<lambda>_. Returned)) 7, waitTime = 1, pc = AtLoopHead\<rparr>
       [ListenerCall 2 (BoundCall 2 (Target (\<lambda>_. Returned)) 7)] \<and>
   spec_worker_step 1000 2 [BoundCall 2 (Target (\<lambda>_. Returned)) (7::nat)] initial_listener =
     Runs [] \<lparr>func = BoundCall 2 (Target (\<lambda>_. Returned)) 7, waitTime = 1, pc = AtLoopHead\<rparr>
       [ListenerCall 2 (BoundCall 2 (Target (\<lambda>_. Returned)) 7)] \<and>
   listener_step 1000 2 [NullTask] (initial_listener :: nat listener) =
     Runs [] \<lparr>func = NullTask, waitTime = 1, pc = Finished\<rparr> [] \<and>
   listener_step 1000 2 [] (initial_listener :: nat listener) =
     Runs [] \<lparr>func = NoOpTask, waitTime = 2, pc = AtLoopHead\<rparr> [ListenerSleep 2 1] \<and>
   listener_step 1000 2 [] (\<lparr>func = NoOpTask, waitTime = 512, pc = AtLoopHead\<rparr> :: nat listener) =
     Runs [] \<lparr>func = NoOpTask, waitTime = 1024, pc = InBlockingDequeue\<rparr> [ListenerSleep 2 512] \<and>
   listener_step 1000 2 [BoundCall 2 (Target (\<lambda>_. Returned)) (7::nat)]
       \<lparr>func = NoOpTask, waitTime = 1024, pc = InBlockingDequeue\<rparr> =
     Runs [] \<lparr>func = BoundCall 2 (Target (\<lambda>_. Returned)) 7, waitTime = 1, pc = AtLoopHead\<rparr>
       [ListenerCall 2 (BoundCall 2 (Target (\<lambda>_. Returned)) 7)]"
proof -
  have a: "(1::nat) \<le> 1000" by simp
  have b: "func (initial_listener :: nat listener) \<noteq> NullTask"
    by (simp add: initial_listener_def)
  have c: "spec_worker_step 1000 2 [BoundCall 2 (Target (\<lambda>_. Returned)) (7::nat)] initial_listener =
     Runs [] \<lparr>func = BoundCall 2 (Target (\<lambda>_. Returned)) 7, waitTime = 1, pc = AtLoopHead\<rparr>
       [ListenerCall 2 (BoundCall 2 (Target (\<lambda>_. Returned)) 7)]"
    by (simp add: spec_worker_step_def spec_run_and_reset_def initial_listener_def)
  have d: "listener_step 1000 2 [BoundCall 2 (Target (\<lambda>_. Returned)) (7::nat)] initial_listener =
     spec_worker_step 1000 2 [BoundCall 2 (Target (\<lambda>_. Returned)) (7::nat)] initial_listener"
    using listener_follows_specified_loop [OF a b] by (rule conjunct1)
  have e: "listener_step 1000 2 [NullTask] (initial_listener :: nat listener) =
     Runs [] \<lparr>func = NullTask, waitTime = 1, pc = Finished\<rparr> []"
    by (simp add: engine_defs)
  have f: "listener_step 1000 2 [] (initial_listener :: nat listener) =
     Runs [] \<lparr>func = NoOpTask, waitTime = 2, pc = AtLoopHead\<rparr> [ListenerSleep 2 1]"
    by (simp add: engine_defs)
  have g: "listener_step 1000 2 [] (\<lparr>func = NoOpTask, waitTime = 512, pc = AtLoopHead\<rparr> :: nat listener) =
     Runs [] \<lparr>func = NoOpTask, waitTime = 1024, pc = InBlockingDequeue\<rparr> [ListenerSleep 2 512]"
    by (simp add: engine_defs)
  have h: "listener_step 1000 2 [BoundCall 2 (Target (\<lambda>_. Returned)) (7::nat)]
       \<lparr>func = NoOpTask, waitTime = 1024, pc = InBlockingDequeue\<rparr> =
     Runs [] \<lparr>func = BoundCall 2 (Target (\<lambda>_. Returned)) 7, waitTime = 1, pc = AtLoopHead\<rparr>
       [ListenerCall 2 (BoundCall 2 (Target (\<lambda>_. Returned)) 7)]"
    by (simp add: engine_defs)
  show ?thesis using a b c d e f g h by simp
qed

subsection \<open>Detached threads\<close>

lemma detachedThreads_disconnectSlot:
  "detachedThreads (impl (state_of (disconnectSlot m i))) = detachedThreads (impl m) \<and>
   semCounter (impl (state_of (disconnectSlot m i))) = semCounter (impl m)"
proof (cases "findSlotMapWithId (impl m) i")
  case None
  then show ?thesis by (simp add: disconnectSlot_def)
next
  case (Some sm)
  show ?thesis
  proof (cases "sm = StrandSlots")
    case False
    then show ?thesis using Some by (simp add: disconnectSlot_def erase_slot_def)
  next
    case True
    have "detachedThreads (impl (state_of (join_strand i (enqueue_strand i NullTask m)))) =
        detachedThreads (impl m) \<and>
      semCounter (impl (state_of (join_strand i (enqueue_strand i NullTask m)))) = semCounter (impl m)"
      using join_strand_frame [of StrandSlots i "enqueue_strand i NullTask m"] by simp
    then show ?thesis using Some True
      by (cases "join_strand i (enqueue_strand i NullTask m)")
         (simp_all add: disconnectSlot_def erase_slot_def Let_def)
  qed
qed

lemma fold_enqueue_entry_detached [simp]:
  "detachedThreads (impl (fold (\<lambda>i. enqueue_entry i t) ks m)) = detachedThreads (impl m)"
  "semCounter (impl (fold (\<lambda>i. enqueue_entry i t) ks m)) = semCounter (impl m)"
  by (induction ks arbitrary: m) simp_all

lemma detachedThreads_disconnectAllSlots:
  "detachedThreads (impl (state_of (disconnectAllSlots m))) = detachedThreads (impl m) \<and>
   semCounter (impl (state_of (disconnectAllSlots m))) = semCounter (impl m)"
proof -
  let ?m1 = "fold (\<lambda>i. enqueue_entry i NullTask) (keys (strandQueues (impl m))) m"
  let ?r = "for_each join_entry (keys (strandThreads (impl ?m1))) ?m1"
  have "detachedThreads (impl (state_of ?r)) = detachedThreads (impl m) \<and>
      semCounter (impl (state_of ?r)) = semCounter (impl m)"
    by (rule for_each_invariant [where P = "\<lambda>x. detachedThreads (impl x) = detachedThreads (impl m) \<and>
          semCounter (impl x) = semCounter (impl m)"])
       (simp_all add: join_entry_frame)
  then show ?thesis
    by (cases ?r) (simp_all add: disconnectAllSlots_def Let_def clear_all_def)
qed

lemma detachedThreads_connectSlot:
  "detachedThreads (impl (state_of (connectSlot m scheme slot))) = detachedThreads (impl m) \<and>
   semCounter (impl (state_of (connectSlot m scheme slot))) = semCounter (impl m)"
  by (cases "getSlotMap scheme") (simp_all add: connectSlot_def Let_def)

lemma detachedThreads_listener_runs:
  "detachedThreads (impl (state_of (listener_runs i m))) = detachedThreads (impl m) \<and>
   semCounter (impl (state_of (listener_runs i m))) = semCounter (impl m)"
  by (auto simp: listener_runs_def split: option.splits std_thread.splits listener_result.splits)

lemma filter_async_events:
  "filter async_event (map (\<lambda>slot. SlotCall (fst slot) p) xs) = []"
  "filter async_event (concat (map (\<lambda>slot. [SemAcquire, DetachedSpawn (fst slot) p]) xs)) =
     concat (map (\<lambda>slot. [SemAcquire, DetachedSpawn (fst slot) p]) xs)"
  "filter async_event (map (\<lambda>slot. QueueEnqueue (fst slot) (BoundCall (fst slot) (snd slot) p)) xs) = []"
  "filter async_event (map (\<lambda>slot. PoolRun (BoundCall (fst slot) (snd slot) p)) xs) = []"
  by (induction xs) (simp_all add: async_event_def)

subsection \<open>Ids are held once\<close>

lemma held_ids_slots: "set (held_ids s) = (\<Union>sm. set (keys (slots sm s)))"
proof -
  have "(\<Union>sm. set (keys (slots sm s))) =
      set (keys (slots SynchronousSlots s)) \<union> set (keys (slots AsynchronousSlots s)) \<union>
      set (keys (slots StrandSlots s)) \<union> set (keys (slots ThreadPooledSlots s))"
    (is "?L = ?R")
  proof
    show "?L \<subseteq> ?R"
    proof
      fix k assume "k \<in> ?L"
      then obtain sm where "k \<in> set (keys (slots sm s))" by blast
      then show "k \<in> ?R" by (cases sm) simp_all
    qed
    show "?R \<subseteq> ?L" by blast
  qed
  then show ?thesis by (simp add: held_ids_def Un_assoc)
qed

lemma one_registry_holding:
  assumes "one_registry s"
  shows "length (registries_holding s i) \<le> 1"
  using assms
  by (auto simp: one_registry_def held_ids_def registries_holding_def map_count_keys)

lemma ids_fresh:
  assumes "ids_below s"
  shows "currentId s \<notin> set (held_ids s)"
  using assms by (auto simp: ids_below_def list_all_iff)

lemma held_ids_registrations:
  "registrations s' = registrations s \<Longrightarrow> held_ids s' = held_ids s \<and> currentId s' = currentId s"
  by (simp add: registrations_def held_ids_def)

lemma word_less_succ:
  assumes "(c :: 32 word) + 1 \<noteq> 0"
  shows "c < c + 1" and "k < c \<Longrightarrow> k < c + 1"
proof -
  have "unat (1 + c) = Suc (unat c)" using assms by (intro unatSuc) (simp add: add.commute)
  then have u: "unat (c + 1) = Suc (unat c)" by (simp add: add.commute)
  show "c < c + 1" by (simp add: word_less_nat_alt u)
  show "k < c + 1" if "k < c" using that by (simp add: word_less_nat_alt u)
qed

lemma insort_props:
  "set (insort k xs) = insert k (set xs)" "distinct (insort k xs) = (k \<notin> set xs \<and> distinct xs)"
  by (simp_all add: set_insort_key distinct_insort)

lemma ids_connectSlot:
  assumes "connectSlot m scheme slot = Returns r m'" and "ids_below (impl m)"
    and "one_registry (impl m)" and "currentId (impl m) + 1 \<noteq> 0"
  shows "ids_below (impl m') \<and> one_registry (impl m')"
proof -
  let ?c = "currentId (impl m)"
  have fresh: "?c \<notin> set (held_ids (impl m))" by (rule ids_fresh [OF assms(2)])
  have c: "currentId (impl m') = ?c + 1"
    using currentId_connectSlot [of m scheme slot] assms(1) by simp
  have sl: "slots sm (impl m') =
      (if sm = getSlotMap scheme then emplace ?c slot (slots sm (impl m)) else slots sm (impl m))" for sm
    using assms(1)
    by (cases "getSlotMap scheme"; cases sm)
       (auto simp: connectSlot_def Let_def emit_event_def split: if_splits)
  have k: "keys (slots sm (impl m')) =
      (if sm = getSlotMap scheme then insort ?c (keys (slots sm (impl m)))
       else keys (slots sm (impl m)))" for sm
    using fresh by (auto simp: sl keys_emplace held_ids_slots)
  have h: "held_ids (impl m') =
      (if getSlotMap scheme = SynchronousSlots then insort ?c (keys (synchronousSlots (impl m)))
       else keys (synchronousSlots (impl m))) @
      (if getSlotMap scheme = AsynchronousSlots then insort ?c (keys (asynchronousSlots (impl m)))
       else keys (asynchronousSlots (impl m))) @
      (if getSlotMap scheme = StrandSlots then insort ?c (keys (strandSlots (impl m)))
       else keys (strandSlots (impl m))) @
      (if getSlotMap scheme = ThreadPooledSlots then insort ?c (keys (threadPooledSlots (impl m)))
       else keys (threadPooledSlots (impl m)))"
    using k [of SynchronousSlots] k [of AsynchronousSlots] k [of StrandSlots]
      k [of ThreadPooledSlots]
    by (simp add: held_ids_def eq_commute [of _ "getSlotMap scheme"])
  have sub: "set (held_ids (impl m')) \<subseteq> insert ?c (set (held_ids (impl m)))"
    unfolding h by (auto simp: insort_props held_ids_def)
  have dis: "distinct (held_ids (impl m'))"
    unfolding h using assms(3) fresh
    by (cases "getSlotMap scheme") (auto simp: one_registry_def insort_props held_ids_def)
  have "k < ?c + 1" if "k \<in> set (held_ids (impl m'))" for k
  proof (cases "k = ?c")
    case True
    then show ?thesis using word_less_succ(1) [OF assms(4)] by simp
  next
    case False
    then have "k \<in> set (held_ids (impl m))" using that sub by auto
    then have "k < ?c" using assms(2) by (simp add: ids_below_def list_all_iff)
    then show ?thesis by (rule word_less_succ(2) [OF assms(4)])
  qed
  then have "ids_below (impl m')" by (simp add: ids_below_def list_all_iff c)
  then show ?thesis using dis by (simp add: one_registry_def)
qed

lemma ids_disconnectSlot:
  assumes "disconnectSlot m i = Returns () m'" and "ids_below (impl m)" and "one_registry (impl m)"
  shows "ids_below (impl m') \<and> one_registry (impl m')"
proof (cases "findSlotMapWithId (impl m) i")
  case None
  then show ?thesis using assms by (simp add: disconnectSlot_def)
next
  case (Some sm)
  have c: "currentId (impl m') = currentId (impl m)"
    using currentId_disconnectSlot [of m i] assms(1) by simp
  note sl = disconnectSlot_slots [OF assms(1) Some]
  have h: "held_ids (impl m') =
      (if sm = SynchronousSlots then filter (\<lambda>x. x \<noteq> i) (keys (synchronousSlots (impl m)))
       else keys (synchronousSlots (impl m))) @
      (if sm = AsynchronousSlots then filter (\<lambda>x. x \<noteq> i) (keys (asynchronousSlots (impl m)))
       else keys (asynchronousSlots (impl m))) @
      (if sm = StrandSlots then filter (\<lambda>x. x \<noteq> i) (keys (strandSlots (impl m)))
       else keys (strandSlots (impl m))) @
      (if sm = ThreadPooledSlots then filter (\<lambda>x. x \<noteq> i) (keys (threadPooledSlots (impl m)))
       else keys (threadPooledSlots (impl m)))"
    using sl [of SynchronousSlots] sl [of AsynchronousSlots] sl [of StrandSlots]
      sl [of ThreadPooledSlots]
    by (simp add: held_ids_def keys_erase eq_commute [of _ sm])
  have sub: "set (held_ids (impl m')) \<subseteq> set (held_ids (impl m))"
    unfolding h by (auto simp: held_ids_def)
  have dis: "distinct (held_ids (impl m'))"
    unfolding h using assms(3) by (cases sm) (auto simp: one_registry_def held_ids_def)
  have "ids_below (impl m')"
    using assms(2) sub by (auto simp: ids_below_def list_all_iff c)
  then show ?thesis using dis by (simp add: one_registry_def)
qed

lemma ids_clear_all: "ids_below (impl (clear_all m)) \<and> one_registry (impl (clear_all m))"
  by (simp add: clear_all_def Let_def ids_below_def one_registry_def held_ids_def)

lemma ids_disconnectAllSlots:
  "disconnectAllSlots m = Returns () m' \<Longrightarrow> ids_below (impl m') \<and> one_registry (impl m')"
  by (auto simp: disconnectAllSlots_def Let_def ids_clear_all split: outcome.splits)

lemma held_ids_listener_runs:
  "held_ids (impl (state_of (listener_runs i m))) = held_ids (impl m)"
  by (auto simp: listener_runs_def held_ids_def
      split: option.splits std_thread.splits listener_result.splits)

lemma held_ids_detached_finishes:
  "held_ids (impl (state_of (detached_finishes k m))) = held_ids (impl m)"
  by (auto simp: detached_finishes_def held_ids_def
      split: prod.splits slot_function.splits option.splits)

lemma with_result_Returns: "(with_result f r = Returns a s) = (\<exists>b. r = Returns b s \<and> a = f b)"
  by (cases r) auto

lemma with_result_Fails: "(with_result f r = Fails e s) = (r = Fails e s)"
  by (cases r) auto

lemma ids_step:
  assumes "well_formed (impl m)" and "ids_below (impl m)" and "one_registry (impl m)"
    and "is_connect x \<longrightarrow> currentId (impl m) + 1 \<noteq> 0"
    and "step m x = Returns r m' \<or> (step m x = Fails e m' \<and> recoverable e)"
  shows "ids_below (impl m') \<and> one_registry (impl m')"
proof (cases x)
  case (Connect scheme slot)
  have "\<not> (connectSlot m scheme slot = Fails e m' \<and> recoverable e)"
    using connectSlot_Fails [of m scheme slot e m'] by auto
  then obtain r0 where "connectSlot m scheme slot = Returns r0 m'"
    using assms(5) Connect by (auto simp: with_result_Returns with_result_Fails)
  then show ?thesis using ids_connectSlot [OF _ assms(2,3)] assms(4) Connect by simp
next
  case (Disconnect i)
  have "\<not> (disconnectSlot m i = Fails e m' \<and> recoverable e)"
    using disconnectSlot_Fails [of m i e m'] assms(1) by auto
  then have "disconnectSlot m i = Returns () m'"
    using assms(5) Disconnect by (auto simp: with_result_Returns with_result_Fails)
  then show ?thesis by (rule ids_disconnectSlot [OF _ assms(2,3)])
next
  case DisconnectAll
  have "\<not> (disconnectAllSlots m = Fails e m' \<and> recoverable e)"
    using disconnectAllSlots_Fails [of m e m'] assms(1) by auto
  then have "disconnectAllSlots m = Returns () m'"
    using assms(5) DisconnectAll by (auto simp: with_result_Returns with_result_Fails)
  then show ?thesis by (rule ids_disconnectAllSlots)
next
  case (Emit p)
  have "held_ids (impl (state_of (emitSignal m p))) = held_ids (impl m) \<and>
      currentId (impl (state_of (emitSignal m p))) = currentId (impl m)"
    by (rule held_ids_registrations) (rule emitSignal_frame)
  then have "ids_below (impl (state_of (emitSignal m p))) \<and>
      one_registry (impl (state_of (emitSignal m p)))"
    using assms(2,3) by (simp add: ids_below_def one_registry_def)
  moreover have "state_of (emitSignal m p) = m'"
    using assms(5) Emit by (auto simp: with_result_Returns with_result_Fails)
  ultimately show ?thesis by simp
next
  case (ListenerRuns i)
  have "ids_below (impl (state_of (listener_runs i m))) \<and>
      one_registry (impl (state_of (listener_runs i m)))"
    using assms(2,3)
    by (simp add: ids_below_def one_registry_def held_ids_listener_runs currentId_listener_runs)
  moreover have "state_of (listener_runs i m) = m'"
    using assms(5) ListenerRuns by (auto simp: with_result_Returns with_result_Fails)
  ultimately show ?thesis by simp
next
  case (DetachedFinishes k)
  have "ids_below (impl (state_of (detached_finishes k m))) \<and>
      one_registry (impl (state_of (detached_finishes k m)))"
    using assms(2,3)
    by (simp add: ids_below_def one_registry_def held_ids_detached_finishes
        currentId_detached_finishes)
  moreover have "state_of (detached_finishes k m) = m'"
    using assms(5) DetachedFinishes by (auto simp: with_result_Returns with_result_Fails)
  ultimately show ?thesis by simp
qed

lemma run_Cons_Some:
  assumes "run m (x # xs) = Some m'"
  shows "run (state_of (step m x)) xs = Some m' \<and>
    (\<exists>r e. step m x = Returns r (state_of (step m x)) \<or>
       (step m x = Fails e (state_of (step m x)) \<and> recoverable e))"
proof (cases "step m x")
  case (Returns r m1)
  then show ?thesis using assms by auto
next
  case (Fails e m1)
  then have "recoverable e" using assms by (auto split: if_splits)
  then show ?thesis using assms Fails by auto
qed

lemma ids_run:
  assumes "run m xs = Some m'" and "well_formed (impl m)" and "ids_below (impl m)"
    and "one_registry (impl m)"
    and "unat (currentId (impl m)) + length (filter is_connect xs) < 2 ^ 32"
  shows "ids_below (impl m') \<and> one_registry (impl m')"
  using assms
proof (induction xs arbitrary: m)
  case Nil
  then show ?case by simp
next
  case (Cons x xs)
  let ?m1 = "state_of (step m x)"
  from run_Cons_Some [OF Cons.prems(1)] obtain r e where
    r: "run ?m1 xs = Some m'"
    and ok: "step m x = Returns r ?m1 \<or> (step m x = Fails e ?m1 \<and> recoverable e)"
    by blast
  have u: "is_connect x \<Longrightarrow> unat (currentId (impl m) + 1) = unat (currentId (impl m)) + 1"
  proof -
    assume "is_connect x"
    then have "unat (currentId (impl m)) + 1 < 2 ^ 32" using Cons.prems(5) by simp
    then show ?thesis by (simp add: unat_word_ariths)
  qed
  have nw: "is_connect x \<longrightarrow> currentId (impl m) + 1 \<noteq> 0"
  proof
    assume "is_connect x"
    from u [OF this] show "currentId (impl m) + 1 \<noteq> 0" by auto
  qed
  have wf: "well_formed (impl ?m1)"
    by (rule well_formed_step [OF Cons.prems(2) ok])
  have ids: "ids_below (impl ?m1) \<and> one_registry (impl ?m1)"
    by (rule ids_step [OF Cons.prems(2,3,4) nw ok])
  have c: "currentId (impl ?m1) =
      (if is_connect x then currentId (impl m) + 1 else currentId (impl m))"
    by (rule currentId_step)
  have "unat (currentId (impl ?m1)) + length (filter is_connect xs) < 2 ^ 32"
    using c u Cons.prems(5) by (cases "is_connect x") simp_all
  then show ?case using Cons.IH [OF r wf] ids by simp
qed

lemma ids_reachable:
  assumes "run (fresh mw g c) xs = Some m" and "length (filter is_connect xs) < 2 ^ 32"
  shows "ids_below (impl m) \<and> one_registry (impl m)"
proof (rule ids_run [OF assms(1)])
  show "well_formed (impl (fresh mw g c))" by (simp add: fresh_def well_formed_construct)
  show "ids_below (impl (fresh mw g c))"
    by (simp add: fresh_def construct_def ids_below_def held_ids_def)
  show "one_registry (impl (fresh mw g c))"
    by (simp add: fresh_def construct_def one_registry_def held_ids_def)
  show "unat (currentId (impl (fresh mw g c))) + length (filter is_connect xs) < 2 ^ 32"
    using assms(2) by (simp add: fresh_def construct_def)
qed

text \<open>
  Claim C7.  \<^verbatim>\<open>findSlotMapWithId\<close> returns \<^verbatim>\<open>nullptr\<close> exactly when none of the four
  slot maps holds the id; then \<^verbatim>\<open>disconnectSlot\<close> returns at once, the whole state (trace
  included) being what it was, and nothing is raised.  So a second \<^verbatim>\<open>disconnectSlot\<close> of
  an id that was held by at most one slot map is such a call; and in every state that a
  fresh engine reaches with fewer than \<open>2^32\<close> \<^verbatim>\<open>connectSlot\<close> calls, no id is held by
  more than one slot map.
\<close>

theorem disconnect_unknown_id_is_noop:
  "(findSlotMapWithId (impl m) i = None \<longleftrightarrow> registries_holding (impl m) i = []) \<and>
   (findSlotMapWithId (impl m) i = None \<longrightarrow> disconnectSlot m i = Returns () m) \<and>
   (disconnectSlot m i = Returns () m' \<and> length (registries_holding (impl m) i) \<le> 1 \<longrightarrow>
      disconnectSlot m' i = Returns () m') \<and>
   (run (fresh mw g c) xs = Some m \<and> length (filter is_connect xs) < 2 ^ 32 \<longrightarrow>
      length (registries_holding (impl m) i) \<le> 1)"
proof (intro conjI impI)
  show "length (registries_holding (impl m) i) \<le> 1"
    if "run (fresh mw g c) xs = Some m \<and> length (filter is_connect xs) < 2 ^ 32"
    using ids_reachable [of mw g c xs m] that one_registry_holding [of "impl m" i] by blast
  show "(findSlotMapWithId (impl m) i = None) = (registries_holding (impl m) i = [])"
    by (auto simp: findSlotMapWithId_def registries_holding_def)
  show "disconnectSlot m i = Returns () m" if "findSlotMapWithId (impl m) i = None"
    using that by (simp add: disconnectSlot_def)
  show "disconnectSlot m' i = Returns () m'"
    if h: "disconnectSlot m i = Returns () m' \<and> length (registries_holding (impl m) i) \<le> 1"
  proof (cases "findSlotMapWithId (impl m) i")
    case None
    then show ?thesis using h by (simp add: disconnectSlot_def)
  next
    case (Some sm)
    have here: "map_count i (slots sm (impl m))" by (rule findSlotMapWithId_Some [OF Some])
    have "\<not> map_count i (slots sm' (impl m'))" for sm'
      using disconnectSlot_slots [OF conjunct1 [OF h] Some, of sm']
        registries_holding_unique [OF conjunct2 [OF h] here, of sm']
      by (cases "sm' = sm") simp_all
    then have "findSlotMapWithId (impl m') i = None"
      by (simp add: findSlotMapWithId_None)
    then show ?thesis by (simp add: disconnectSlot_def)
  qed
qed

theorem disconnect_unknown_id_is_noop_witness:
  "findSlotMapWithId (impl one_of_each) 9 = None \<and>
   disconnectSlot one_of_each 9 = Returns () one_of_each \<and>
   length (registries_holding (impl one_of_each) 1) \<le> 1 \<and>
   disconnectSlot (state_of (disconnectSlot one_of_each 1)) 1 =
     Returns () (state_of (disconnectSlot one_of_each 1)) \<and>
   state_of (disconnectSlot one_of_each 1) \<noteq> one_of_each"
proof -
  have a: "findSlotMapWithId (impl one_of_each) 9 = None"
    by (simp add: one_of_each_def engine_defs)
  have b: "disconnectSlot one_of_each 1 = Returns () (state_of (disconnectSlot one_of_each 1))"
    by (simp add: one_of_each_def engine_defs)
  have c: "length (registries_holding (impl one_of_each) 1) \<le> 1"
    by (simp add: one_of_each_def registries_holding_def engine_defs)
  have d: "state_of (disconnectSlot one_of_each 1) \<noteq> one_of_each"
    by (simp add: one_of_each_def engine_defs)
  show ?thesis
    using disconnect_unknown_id_is_noop [of one_of_each 9]
      disconnect_unknown_id_is_noop [of one_of_each 1 "state_of (disconnectSlot one_of_each 1)"]
      a b c d
    by blast
qed




subsection \<open>The shared pool\<close>

lemma pool_status_connectSlot:
  "pool_status (pool (state_of (connectSlot m scheme slot))) =
     (if scheme = THREAD_POOLED then pool_status (startup (pool m)) else pool_status (pool m))"
  by (simp add: connectSlot_def Let_def STRAND_def THREAD_POOLED_def)

lemma pool_disconnectSlot: "pool (state_of (disconnectSlot m i)) = pool m"
proof (cases "findSlotMapWithId (impl m) i")
  case None
  then show ?thesis by (simp add: disconnectSlot_def)
next
  case (Some sm)
  show ?thesis
  proof (cases "sm = StrandSlots")
    case False
    then show ?thesis using Some by (simp add: disconnectSlot_def erase_slot_def)
  next
    case True
    have "pool (state_of (join_strand i (enqueue_strand i NullTask m))) = pool m"
      using join_strand_frame [of StrandSlots i "enqueue_strand i NullTask m"] by simp
    then show ?thesis using Some True
      by (cases "join_strand i (enqueue_strand i NullTask m)")
         (simp_all add: disconnectSlot_def erase_slot_def Let_def)
  qed
qed

lemma fold_enqueue_entry_pool [simp]:
  "pool (fold (\<lambda>i. enqueue_entry i t) ks m) = pool m"
  by (induction ks arbitrary: m) simp_all

lemma pool_disconnectAllSlots: "pool (state_of (disconnectAllSlots m)) = pool m"
proof -
  let ?m1 = "fold (\<lambda>i. enqueue_entry i NullTask) (keys (strandQueues (impl m))) m"
  let ?r = "for_each join_entry (keys (strandThreads (impl ?m1))) ?m1"
  have "pool (state_of ?r) = pool m"
    by (rule for_each_invariant [where P = "\<lambda>x. pool x = pool m"])
       (simp_all add: join_entry_frame)
  then show ?thesis
    by (cases ?r) (simp_all add: disconnectAllSlots_def Let_def clear_all_def emit_event_def)
qed

lemma pool_status_emitSignal:
  "pool_status (pool (state_of (emitSignal m p))) = pool_status (pool m)"
proof (cases "emitSignalUnsafe m p")
  case (Returns u m')
  then have "m' = emitted p m" using emitSignalUnsafe_Returns(1) [of m p m'] by simp
  then show ?thesis using Returns
    by (simp add: emitSignal_unsafe emitted_def pool_status_def)
next
  case (Fails e m')
  let ?L1 = "for_each (\<lambda>slot. runSynchronous (fst slot) (snd slot) p) (synchronousSlots (impl m)) m"
  have p1: "pool (state_of ?L1) = pool m"
    by (rule for_each_invariant [where P = "\<lambda>x. pool x = pool m"])
       (auto simp: runSynchronous_def split: slot_function.splits option.splits)
  have "pool m' = pool m"
  proof (cases ?L1)
    case (Fails e1 m1)
    then show ?thesis using \<open>emitSignalUnsafe m p = Fails e m'\<close> p1
      by (simp add: emitSignalUnsafe_def)
  next
    case (Returns u m1)
    let ?L2 = "for_each (\<lambda>slot. runAsynchronous (fst slot) (snd slot) p) (asynchronousSlots (impl m1)) m1"
    have p2: "pool (state_of ?L2) = pool m1"
      by (rule for_each_invariant [where P = "\<lambda>x. pool x = pool m1"])
         (auto simp: runAsynchronous_def split: option.splits)
    show ?thesis
    proof (cases ?L2)
      case (Fails e2 m2)
      then show ?thesis using \<open>emitSignalUnsafe m p = Fails e m'\<close> \<open>?L1 = Returns u m1\<close> p1 p2
        by (simp add: emitSignalUnsafe_def)
    next
      case (Returns u2 m2)
      then have "\<exists>x. emitSignalUnsafe m p = Returns () x"
        using \<open>?L1 = Returns u m1\<close>
        by (simp add: emitSignalUnsafe_def for_each_runStrands for_each_runThreadPooled)
      then show ?thesis using \<open>emitSignalUnsafe m p = Fails e m'\<close> by simp
    qed
  qed
  then show ?thesis using Fails by (simp add: emitSignal_unsafe)
qed

lemma pool_listener_runs: "pool (state_of (listener_runs i m)) = pool m"
  by (auto simp: listener_runs_def split: option.splits std_thread.splits listener_result.splits)

lemma pool_detached_finishes: "pool (state_of (detached_finishes k m)) = pool m"
  by (auto simp: detached_finishes_def split: prod.splits slot_function.splits option.splits)

lemma pool_status_step:
  "pool_status (pool (state_of (step m x))) =
     (if pooled_connect x then pool_status (startup (pool m)) else pool_status (pool m))"
  by (cases x)
     (simp_all add: pool_status_connectSlot pool_disconnectSlot pool_disconnectAllSlots
        pool_status_emitSignal pool_listener_runs pool_detached_finishes)

lemma maxWait_run: "run m xs = Some m' \<Longrightarrow> getMaxWait (pool m') = getMaxWait (pool m)"
proof (induction xs arbitrary: m)
  case Nil
  then show ?case by simp
next
  case (Cons x xs)
  have "getMaxWait (pool (state_of (step m x))) = getMaxWait (pool m)"
    using pool_status_step [of m x] by (simp add: pool_status_def getMaxWait_def startup_def split: if_splits)
  then show ?case using Cons.IH [of "state_of (step m x)"] run_Cons_Some [OF Cons.prems] by simp
qed

lemma process_step_pool:
  "pool_status (shared_pool (state_of (process_step P x))) =
     (if fst x < length (engines P) \<and> pooled_connect (snd x)
      then pool_status (startup (shared_pool P)) else pool_status (shared_pool P))"
proof (cases "fst x < length (engines P)")
  case False
  then show ?thesis by (simp add: process_step_def)
next
  case True
  have "shared_pool (state_of (process_step P x)) = pool (state_of (step (view P (fst x)) (snd x)))"
    using True by (cases "step (view P (fst x)) (snd x)") (simp_all add: process_step_def write_back_def)
  then show ?thesis using True pool_status_step [of "view P (fst x)" "snd x"]
    by (simp add: view_def)
qed

lemma process_step_engines:
  "length (engines (state_of (process_step P x))) = length (engines P)"
  by (cases "step (view P (fst x)) (snd x)") (simp_all add: process_step_def write_back_def)

lemma process_run_Cons_Some:
  "process_run P (x # xs) = Some P' \<Longrightarrow> process_run (state_of (process_step P x)) xs = Some P'"
  by (cases "process_step P x") (auto split: if_splits)

lemma process_run_pool:
  assumes "process_run P xs = Some P'"
    and "startups (shared_pool P) = (if started (shared_pool P) then 1 else 0)"
  shows "startups (shared_pool P') = (if started (shared_pool P') then 1 else 0) \<and>
    started (shared_pool P') =
      (started (shared_pool P) \<or> (\<exists>x \<in> set xs. fst x < length (engines P) \<and> pooled_connect (snd x))) \<and>
    maxWait (shared_pool P') = maxWait (shared_pool P) \<and>
    length (engines P') = length (engines P)"
  using assms
proof (induction xs arbitrary: P)
  case Nil
  then show ?case by simp
next
  case (Cons x xs)
  let ?P1 = "state_of (process_step P x)"
  have r: "process_run ?P1 xs = Some P'" by (rule process_run_Cons_Some [OF Cons.prems(1)])
  note st = process_step_pool [of P x]
  have len: "length (engines ?P1) = length (engines P)" by (rule process_step_engines)
  have inv: "startups (shared_pool ?P1) = (if started (shared_pool ?P1) then 1 else 0)"
    using st Cons.prems(2) by (auto simp: pool_status_def startup_def split: if_splits)
  have s1: "started (shared_pool ?P1) =
      (started (shared_pool P) \<or> (fst x < length (engines P) \<and> pooled_connect (snd x)))"
    using st by (auto simp: pool_status_def startup_def split: if_splits)
  have mw: "maxWait (shared_pool ?P1) = maxWait (shared_pool P)"
    using st by (auto simp: pool_status_def startup_def split: if_splits)
  show ?case using Cons.IH [OF r inv] s1 mw len by auto
qed

lemma startup_idem: "startup (startup p) = startup p"
  by (simp add: startup_def)

text \<open>
  Claim C8.  Every \<^verbatim>\<open>connectSlot\<close> with the scheme \<^verbatim>\<open>THREAD_POOLED\<close> returns and calls
  \<^verbatim>\<open>WheeledThreadPool::startup()\<close> on the pool of the process.  That call is idempotent.
  So in a process with any number of engines, after any sequence of operations on them, the
  pool has been started exactly once if some engine was asked for a pooled connect, and not
  at all otherwise.
\<close>

theorem pool_started_once:
  "(\<exists>m'. connectSlot m THREAD_POOLED slot = Returns (sint (currentId (impl m))) m' \<and>
      pool m' = startup (pool m) \<and> trace m' = trace m @ [PoolStartup]) \<and>
   startup (startup (pool m)) = startup (pool m) \<and>
   (process_run (new_process mw configs) xs = Some P \<longrightarrow>
      startups (shared_pool P) =
        (if \<exists>x \<in> set xs. fst x < length configs \<and> pooled_connect (snd x) then 1 else 0) \<and>
      started (shared_pool P) =
        (\<exists>x \<in> set xs. fst x < length configs \<and> pooled_connect (snd x)))"
proof (intro conjI impI)
  show "\<exists>m'. connectSlot m THREAD_POOLED slot = Returns (sint (currentId (impl m))) m' \<and>
      pool m' = startup (pool m) \<and> trace m' = trace m @ [PoolStartup]"
    by (simp add: connectSlot_def Let_def STRAND_def THREAD_POOLED_def)
  show "startup (startup (pool m)) = startup (pool m)" by (rule startup_idem)
  assume r: "process_run (new_process mw configs) xs = Some P"
  have i: "startups (shared_pool (new_process mw configs)) =
      (if started (shared_pool (new_process mw configs)) then 1 else 0)"
    by (simp add: new_process_def new_pool_def)
  note t = process_run_pool [OF r i]
  show "started (shared_pool P) = (\<exists>x \<in> set xs. fst x < length configs \<and> pooled_connect (snd x))"
    using t by (simp add: new_process_def new_pool_def)
  then show "startups (shared_pool P) =
        (if \<exists>x \<in> set xs. fst x < length configs \<and> pooled_connect (snd x) then 1 else 0)"
    using t by simp
qed

lemmas process_defs = process_step_def view_def write_back_def new_process_def

theorem pool_started_once_witness:
  "two_engines = Some (the two_engines) \<and>
   startups (shared_pool (the two_engines)) = 1 \<and>
   started (shared_pool (the two_engines)) \<and>
   history (the two_engines) = [PoolStartup, PoolStartup, PoolStartup] \<and>
   map (\<lambda>s. keys (threadPooledSlots s)) (engines (the two_engines)) = [[0, 1], [0]]"
proof -
  have a: "two_engines = Some (the two_engines)"
    by (simp add: two_engines_def process_defs engine_defs)
  have b: "history (the two_engines) = [PoolStartup, PoolStartup, PoolStartup]"
    by (simp add: two_engines_def process_defs engine_defs)
  have c: "map (\<lambda>s. keys (threadPooledSlots s)) (engines (the two_engines)) = [[0, 1], [0]]"
    by (simp add: two_engines_def process_defs engine_defs)
  have r: "process_run (new_process 1000 [(False, 1024), (False, 1024)])
       [(0, Connect THREAD_POOLED (Target (\<lambda>_. Returned))),
        (1, Connect THREAD_POOLED (Target (\<lambda>_. Returned))),
        (0, Connect THREAD_POOLED (Target (\<lambda>_. Returned)))] = Some (the two_engines)"
    unfolding two_engines_def [symmetric] by (rule a)
  note t = pool_started_once [of "fresh 1000 False 1024 :: nat machine" EmptyFunction 1000
      "[(False, 1024), (False, 1024)]"
      "[(0, Connect THREAD_POOLED (Target (\<lambda>_. Returned))),
        (1, Connect THREAD_POOLED (Target (\<lambda>_. Returned))),
        (0, Connect THREAD_POOLED (Target (\<lambda>_. Returned)))]" "the two_engines",
      THEN conjunct2, THEN conjunct2, THEN mp, OF r]
  have "startups (shared_pool (the two_engines)) = 1 \<and> started (shared_pool (the two_engines))"
    using t by simp
  then show ?thesis using a b c by simp
qed

subsection \<open>Where the shutdown message comes from\<close>

lemma trace_connectSlot:
  "trace (state_of (connectSlot m scheme slot)) =
     trace m @ (if scheme = STRAND then [ListenerSpawn (currentId (impl m))]
                else if scheme = THREAD_POOLED then [PoolStartup] else [])"
  by (simp add: connectSlot_def Let_def)

lemma blockingDequeue_step_events:
  "blockingDequeue_step i q l es0 = Runs q' l' es \<or> blockingDequeue_step i q l es0 = Aborts es \<Longrightarrow>
     \<exists>es1. es = es0 @ es1 \<and> (\<forall>j. QueueEnqueue j NullTask \<notin> set es1)"
  by (cases q)
     (auto simp: blockingDequeue_step_def call_if_set_cases split: option.splits if_splits)

lemma wait_check_events:
  assumes "wait_check maxW i q l es0 = Runs q' l' es \<or> wait_check maxW i q l es0 = Aborts es"
  shows "\<exists>es1. es = es0 @ es1 \<and> (\<forall>j. QueueEnqueue j NullTask \<notin> set es1)"
proof (cases "waitTime l > maxW")
  case True
  then show ?thesis using assms blockingDequeue_step_events [of i q l es0 q' l' es]
    by (simp add: wait_check_def)
next
  case False
  then show ?thesis using assms by (auto simp: wait_check_def)
qed

lemma loop_body_events:
  assumes "loop_body maxW i q l = Runs q' l' es \<or> loop_body maxW i q l = Aborts es"
  shows "\<forall>j. QueueEnqueue j NullTask \<notin> set es"
proof (cases q)
  case Nil
  then have "wait_check maxW i q (l\<lparr>waitTime := 2 * waitTime l\<rparr>) [ListenerSleep i (waitTime l)]
        = Runs q' l' es \<or>
      wait_check maxW i q (l\<lparr>waitTime := 2 * waitTime l\<rparr>) [ListenerSleep i (waitTime l)]
        = Aborts es"
    using assms by (simp add: loop_body_def)
  from wait_check_events [OF this] show ?thesis by auto
next
  case (Cons t q0)
  show ?thesis
  proof (cases "snd (call_if_set i t)")
    case (Some e)
    then show ?thesis using assms Cons
      by (auto simp: loop_body_def call_if_set_cases split: if_splits)
  next
    case None
    then have "wait_check maxW i q0 (l\<lparr>func := t, waitTime := 1\<rparr>) (fst (call_if_set i t))
          = Runs q' l' es \<or>
        wait_check maxW i q0 (l\<lparr>func := t, waitTime := 1\<rparr>) (fst (call_if_set i t)) = Aborts es"
      using assms Cons by (auto simp: loop_body_def split: prod.splits)
    from wait_check_events [OF this] show ?thesis
      by (auto simp: call_if_set_cases split: if_splits)
  qed
qed

lemma listener_step_events:
  assumes "listener_step maxW i q l = Runs q' l' es \<or> listener_step maxW i q l = Aborts es"
  shows "\<forall>j. QueueEnqueue j NullTask \<notin> set es"
proof (cases "pc l")
  case AtLoopHead
  then show ?thesis using assms loop_body_events [of maxW i q l q' l' es]
    by (simp add: listener_step_def)
next
  case InBlockingDequeue
  then show ?thesis using assms blockingDequeue_step_events [of i q l "[]" q' l' es]
    by (auto simp: listener_step_def)
next
  case Finished
  then show ?thesis using assms by (auto simp: listener_step_def)
qed

lemma trace_listener_runs:
  "\<exists>es. trace (state_of (listener_runs i m)) = trace m @ es \<and>
     (\<forall>j. QueueEnqueue j NullTask \<notin> set es)"
proof (cases "\<exists>l. map_of (strandThreads (impl m)) i = Some (Joinable l)")
  case False
  then have "listener_runs i m = Returns () m"
    by (auto simp: listener_runs_def split: option.splits std_thread.splits)
  then show ?thesis by simp
next
  case True
  then obtain l where l: "map_of (strandThreads (impl m)) i = Some (Joinable l)" by blast
  show ?thesis
  proof (cases "listener_step (getMaxWait (pool m)) i (queue_of i (impl m)) l")
    case (Runs q' l' es)
    then show ?thesis
      using l listener_step_events [of "getMaxWait (pool m)" i "queue_of i (impl m)" l q' l' es]
      by (simp add: listener_runs_def)
  next
    case (Aborts es)
    then show ?thesis
      using l listener_step_events [of "getMaxWait (pool m)" i "queue_of i (impl m)" l _ _ es]
      by (simp add: listener_runs_def)
  qed
qed

lemma trace_detached_finishes:
  "\<exists>es. trace (state_of (detached_finishes k m)) = trace m @ es \<and>
     (\<forall>j. QueueEnqueue j NullTask \<notin> set es)"
  by (auto simp: detached_finishes_def split: prod.splits slot_function.splits option.splits)

lemma trace_emitSignal:
  "\<exists>es. trace (state_of (emitSignal m p)) = trace m @ es \<and>
     (\<forall>i t. QueueEnqueue i t \<in> set es \<longrightarrow> (\<exists>f. t = BoundCall i f p))"
proof (cases "emitSignalUnsafe m p")
  case (Returns u m')
  then have "m' = emitted p m" using emitSignalUnsafe_Returns(1) [of m p m'] by simp
  then show ?thesis using Returns
    by (auto simp: emitSignal_unsafe trace_emitted)
next
  case (Fails e m')
  from emitSignalUnsafe_Fails [OF this] obtain es where
    es: "trace m' = trace m @ es"
    "prefix es (map (\<lambda>slot. SlotCall (fst slot) p) (synchronousSlots (impl m)) @
       concat (map (\<lambda>slot. [SemAcquire, DetachedSpawn (fst slot) p]) (asynchronousSlots (impl m))))"
    by blast
  have "QueueEnqueue i t \<notin> set es" for i t
  proof
    assume "QueueEnqueue i t \<in> set es"
    then have "QueueEnqueue i t \<in> set (map (\<lambda>slot. SlotCall (fst slot) p) (synchronousSlots (impl m)) @
       concat (map (\<lambda>slot. [SemAcquire, DetachedSpawn (fst slot) p]) (asynchronousSlots (impl m))))"
      using set_mono_prefix [OF es(2)] by blast
    then show False by (auto split: if_splits)
  qed
  then show ?thesis using Fails es(1) by (simp add: emitSignal_unsafe)
qed

text \<open>
  Claim C6.  In every state that an engine reaches between two operations, no strand
  queue holds \<^verbatim>\<open>nullptr\<close> and every strand's listener is running, its \<^verbatim>\<open>func\<close> not empty.
  Every task that \<^verbatim>\<open>emitSignal\<close> puts on a strand queue is a closure bound to a slot and
  the emitted arguments, never \<^verbatim>\<open>nullptr\<close>.  No operation other than \<^verbatim>\<open>disconnectSlot\<close>
  and \<^verbatim>\<open>disconnectAllSlots\<close> puts \<^verbatim>\<open>nullptr\<close> on a queue.  A listener that finds no
  \<^verbatim>\<open>nullptr\<close> in its queue does not leave its loop.
\<close>

theorem shutdown_entry_only_from_disconnect:
  "(run (fresh mw g c) xs = Some m \<longrightarrow>
      list_all (\<lambda>e. NullTask \<notin> set (snd e)) (strandQueues (impl m)) \<and>
      list_all (\<lambda>e. live_listener (snd e)) (strandThreads (impl m)) \<and>
      NullTask \<notin> set (queue_of i (impl m))) \<and>
   (\<forall>j t. QueueEnqueue j t \<in> set (drop (length (trace m)) (trace (state_of (emitSignal m p)))) \<longrightarrow>
      t \<noteq> NullTask \<and> (\<exists>f. t = BoundCall j f p)) \<and>
   (\<not> is_disconnect x \<longrightarrow>
      (\<forall>j. QueueEnqueue j NullTask \<notin> set (drop (length (trace m)) (trace (state_of (step m x)))))) \<and>
   (NullTask \<notin> set q \<and> func l \<noteq> NullTask \<and> pc l \<noteq> Finished \<and>
    listener_step maxW i q l = Runs q' l' es \<longrightarrow>
      pc l' \<noteq> Finished \<and> func l' \<noteq> NullTask \<and> NullTask \<notin> set q')"
proof (intro conjI impI allI)
  assume r: "run (fresh mw g c) xs = Some m"
  have wf: "well_formed (impl m)" by (rule well_formed_reachable [OF r])
  show "list_all (\<lambda>e. NullTask \<notin> set (snd e)) (strandQueues (impl m))"
    using wf by (simp add: well_formed_def)
  show "list_all (\<lambda>e. live_listener (snd e)) (strandThreads (impl m))"
    using wf by (simp add: well_formed_def)
  show "NullTask \<notin> set (queue_of i (impl m))" by (rule well_formed_queue_of [OF wf])
next
  fix j t
  assume a: "QueueEnqueue j t \<in> set (drop (length (trace m)) (trace (state_of (emitSignal m p))))"
  obtain es where es: "trace (state_of (emitSignal m p)) = trace m @ es"
    "\<forall>i t. QueueEnqueue i t \<in> set es \<longrightarrow> (\<exists>f. t = BoundCall i f p)"
    using trace_emitSignal [of m p] by blast
  then have "\<exists>f. t = BoundCall j f p" using a by simp
  then show "\<exists>f. t = BoundCall j f p" and "t \<noteq> NullTask" by auto
next
  fix j
  assume nd: "\<not> is_disconnect x"
  have "\<exists>es. trace (state_of (step m x)) = trace m @ es \<and>
      (\<forall>j. QueueEnqueue j NullTask \<notin> set es)"
  proof (cases x)
    case (Connect scheme slot)
    then show ?thesis by (simp add: trace_connectSlot)
  next
    case (Emit p')
    obtain es where "trace (state_of (emitSignal m p')) = trace m @ es"
      "\<forall>i t. QueueEnqueue i t \<in> set es \<longrightarrow> (\<exists>f. t = BoundCall i f p')"
      using trace_emitSignal [of m p'] by blast
    then show ?thesis using Emit by auto
  next
    case (ListenerRuns k)
    then show ?thesis using trace_listener_runs [of k m] by simp
  next
    case (DetachedFinishes k)
    then show ?thesis using trace_detached_finishes [of k m] by simp
  qed (use nd in simp_all)
  then show "QueueEnqueue j NullTask \<notin> set (drop (length (trace m)) (trace (state_of (step m x))))"
    by auto
next
  assume a: "NullTask \<notin> set q \<and> func l \<noteq> NullTask \<and> pc l \<noteq> Finished \<and>
    listener_step maxW i q l = Runs q' l' es"
  then have "NullTask \<notin> set q' \<and> pc l' \<noteq> Finished \<and> func l' \<noteq> NullTask"
    using listener_step_live [of maxW i q l q' l' es] by simp
  then show "pc l' \<noteq> Finished" and "func l' \<noteq> NullTask" and "NullTask \<notin> set q'" by simp_all
qed

theorem shutdown_entry_only_from_disconnect_witness:
  "strand_session = Some (the strand_session) \<and>
   strandQueues (impl (the strand_session)) = [(1, [BoundCall 1 (Target (\<lambda>_. Returned)) 3])] \<and>
   NullTask \<notin> set (queue_of 1 (impl (the strand_session))) \<and>
   trace (the strand_session) =
     [ListenerSpawn 0,
      QueueEnqueue 0 (BoundCall 0 (Target (\<lambda>_. Returned)) 1),
      QueueEnqueue 0 (BoundCall 0 (Target (\<lambda>_. Returned)) 2),
      ListenerCall 0 (BoundCall 0 (Target (\<lambda>_. Returned)) 1),
      ListenerSpawn 1,
      QueueEnqueue 0 (BoundCall 0 (Target (\<lambda>_. Returned)) 3),
      QueueEnqueue 1 (BoundCall 1 (Target (\<lambda>_. Returned)) 3),
      QueueEnqueue 0 NullTask,
      ListenerCall 0 (BoundCall 0 (Target (\<lambda>_. Returned)) 2),
      ListenerCall 0 (BoundCall 0 (Target (\<lambda>_. Returned)) 3),
      ListenerJoin 0, ThreadDestroy 0, QueueDestroy 0, SlotErase StrandSlots 0]"
proof -
  have a: "strand_session = Some (the strand_session)"
    by (simp add: strand_session_def engine_defs queueListener.simps)
  have b: "strandQueues (impl (the strand_session)) =
      [(1, [BoundCall 1 (Target (\<lambda>_. Returned)) 3])]"
    by (simp add: strand_session_def engine_defs queueListener.simps)
  have c: "trace (the strand_session) =
     [ListenerSpawn 0,
      QueueEnqueue 0 (BoundCall 0 (Target (\<lambda>_. Returned)) 1),
      QueueEnqueue 0 (BoundCall 0 (Target (\<lambda>_. Returned)) 2),
      ListenerCall 0 (BoundCall 0 (Target (\<lambda>_. Returned)) 1),
      ListenerSpawn 1,
      QueueEnqueue 0 (BoundCall 0 (Target (\<lambda>_. Returned)) 3),
      QueueEnqueue 1 (BoundCall 1 (Target (\<lambda>_. Returned)) 3),
      QueueEnqueue 0 NullTask,
      ListenerCall 0 (BoundCall 0 (Target (\<lambda>_. Returned)) 2),
      ListenerCall 0 (BoundCall 0 (Target (\<lambda>_. Returned)) 3),
      ListenerJoin 0, ThreadDestroy 0, QueueDestroy 0, SlotErase StrandSlots 0]"
    by (simp add: strand_session_def engine_defs queueListener.simps)
  have r: "run (fresh 1000 False 1024)
       [Connect STRAND (Target (\<lambda>_. Returned)), Emit 1, Emit 2, ListenerRuns 0,
        Connect STRAND (Target (\<lambda>_. Returned)), Emit 3, Disconnect 0] = Some (the strand_session)"
    unfolding strand_session_def [symmetric] by (rule a)
  note t = shutdown_entry_only_from_disconnect [of 1000 False 1024
      "[Connect STRAND (Target (\<lambda>_. Returned)), Emit 1, Emit 2, ListenerRuns 0,
        Connect STRAND (Target (\<lambda>_. Returned)), Emit 3, Disconnect 0]"
      "the strand_session" 1 0 "Emit 0" "[]" "\<lparr>func = NoOpTask, waitTime = 1, pc = AtLoopHead\<rparr>"
      1000 "[]" "\<lparr>func = NoOpTask, waitTime = 2, pc = AtLoopHead\<rparr>" "[ListenerSleep 1 1]",
      THEN conjunct1, THEN mp, OF r]
  have "NullTask \<notin> set (queue_of 1 (impl (the strand_session)))"
    using t by simp
  then show ?thesis using a b c by simp
qed

subsection \<open>The shutdown handshake\<close>

text \<open>
  A listener whose backlog ends in \<^verbatim>\<open>nullptr\<close> runs the backlog in order and returns, when
  every task returns and the maximum wait is not below the minimum.
\<close>

lemma queueListener_drains:
  assumes "1 \<le> maxW" and "NullTask \<notin> set q" and "\<forall>t \<in> set q. run_task t = None"
    and "pc l \<noteq> Finished"
  shows "queueListener maxW i (q @ NullTask # rest) l =
     Some (Runs rest \<lparr>func = NullTask, waitTime = 1, pc = Finished\<rparr> (map (ListenerCall i) q))"
  using assms(2-4)
proof (induction q arbitrary: l)
  case Nil
  have s: "listener_step maxW i (NullTask # rest) l =
      Runs rest \<lparr>func = NullTask, waitTime = 1, pc = Finished\<rparr> []"
    using Nil assms(1)
    by (cases l; cases "pc l")
       (simp_all add: listener_step_def loop_body_def wait_check_def blockingDequeue_step_def
          loop_test_def)
  show ?case
    using Nil
    by (subst queueListener.simps, simp add: s) (subst queueListener.simps, simp)
next
  case (Cons t q)
  have t: "t \<noteq> NullTask" "run_task t = None" using Cons.prems by auto
  have s: "listener_step maxW i (t # q @ NullTask # rest) l =
      Runs (q @ NullTask # rest) \<lparr>func = t, waitTime = 1, pc = AtLoopHead\<rparr> [ListenerCall i t]"
    using Cons.prems t assms(1)
    by (cases l; cases "pc l")
       (simp_all add: listener_step_def loop_body_def wait_check_def blockingDequeue_step_def
          loop_test_def call_if_set_task)
  have "queueListener maxW i (q @ NullTask # rest) \<lparr>func = t, waitTime = 1, pc = AtLoopHead\<rparr> =
     Some (Runs rest \<lparr>func = NullTask, waitTime = 1, pc = Finished\<rparr> (map (ListenerCall i) q))"
    using Cons.prems by (intro Cons.IH) simp_all
  then show ?case
    using Cons.prems(3)
    by (subst queueListener.simps) (simp add: s)
qed

lemma queue_of_modify:
  "queue_of k (s\<lparr>strandQueues := modify i f (strandQueues s)\<rparr>) =
     (if k = i \<and> map_count i (strandQueues s) then f (queue_of i s) else queue_of k s)"
  by (auto simp: queue_of_def map_of_modify map_count_def split: option.splits)

lemma disconnectSlot_strand_returns:
  assumes wf: "well_formed (impl m)" and mw: "1 \<le> getMaxWait (pool m)"
    and f: "findSlotMapWithId (impl m) i = Some StrandSlots"
    and ok: "\<forall>t \<in> set (queue_of i (impl m)). run_task t = None"
  shows "disconnectSlot m i =
     Returns ()
       (m\<lparr>impl := (impl m)\<lparr>strandThreads := erase i (strandThreads (impl m)),
                            strandQueues := erase i (strandQueues (impl m)),
                            strandSlots := erase i (strandSlots (impl m))\<rparr>,
          trace := trace m @ [QueueEnqueue i NullTask] @
                     map (ListenerCall i) (queue_of i (impl m)) @
                     [ListenerJoin i, ThreadDestroy i, QueueDestroy i, SlotErase StrandSlots i]\<rparr>)"
proof -
  have k: "i \<in> set (keys (strandSlots (impl m)))"
    using findSlotMapWithId_Some [OF f] by (simp add: map_count_keys)
  then have kq: "map_count i (strandQueues (impl m))" and kt: "map_count i (strandThreads (impl m))"
    using wf by (simp_all add: well_formed_def map_count_keys)
  obtain l where l: "map_of (strandThreads (impl m)) i = Some (Joinable l)"
    using well_formed_joinable [OF wf] k wf by (auto simp: well_formed_def)
  then have "(i, Joinable l) \<in> set (strandThreads (impl m))" by (rule map_of_SomeD)
  then have live: "pc l \<noteq> Finished"
    using wf by (auto simp: well_formed_def list_all_iff live_listener_def)
  have nn: "NullTask \<notin> set (queue_of i (impl m))" by (rule well_formed_queue_of [OF wf])
  have q: "queueListener (getMaxWait (pool m)) i (queue_of i (impl m) @ [NullTask]) l =
     Some (Runs [] \<lparr>func = NullTask, waitTime = 1, pc = Finished\<rparr>
        (map (ListenerCall i) (queue_of i (impl m))))"
    by (rule queueListener_drains [OF mw nn ok live])
  show ?thesis
    using f kq kt l q
    by (simp add: disconnectSlot_def join_strand_def join_entry_def enqueue_strand_def
        enqueue_entry_def emplace_keys_eq queue_of_modify enqueue_def erase_slot_def Let_def
        emit_event_def set_impl_def)
qed

lemma fold_modify_distinct:
  "distinct ks \<Longrightarrow>
     fold (\<lambda>i. modify i f) ks Q = map (\<lambda>e. if fst e \<in> set ks then (fst e, f (snd e)) else e) Q"
proof (induction ks arbitrary: Q)
  case Nil
  then show ?case by simp
next
  case (Cons a ks)
  then have "fold (\<lambda>i. modify i f) (a # ks) Q =
      map (\<lambda>e. if fst e \<in> set ks then (fst e, f (snd e)) else e) (modify a f Q)"
    by simp
  also have "\<dots> = map (\<lambda>e. if fst e \<in> set (a # ks) then (fst e, f (snd e)) else e) Q"
    using Cons.prems by (auto simp: modify_def)
  finally show ?case .
qed

lemma fold_enqueue_entry_impl:
  "impl (fold (\<lambda>i. enqueue_entry i t) ks m) =
     (impl m)\<lparr>strandQueues := fold (\<lambda>i. modify i (enqueue t)) ks (strandQueues (impl m))\<rparr>"
  by (induction ks arbitrary: m) simp_all

lemma fold_enqueue_entry_more:
  "(fold (\<lambda>i. enqueue_entry i t) ks m)\<lparr>impl := I, trace := Tr\<rparr> = m\<lparr>impl := I, trace := Tr\<rparr>"
  by (induction ks arbitrary: m) (simp_all add: enqueue_entry_def emit_event_def set_impl_def)

lemma fold_enqueue_entry_trace:
  "trace (fold (\<lambda>i. enqueue_entry i t) ks m) = trace m @ map (\<lambda>i. QueueEnqueue i t) ks"
  by (induction ks arbitrary: m) (simp_all add: enqueue_entry_def)

lemma enqueue_all_impl:
  assumes "ordered (strandQueues (impl m))"
  shows "impl (fold (\<lambda>i. enqueue_entry i t) (keys (strandQueues (impl m))) m) =
     (impl m)\<lparr>strandQueues := map (\<lambda>e. (fst e, snd e @ [t])) (strandQueues (impl m))\<rparr>"
proof -
  have "distinct (keys (strandQueues (impl m)))" using assms by (simp add: ordered_iff)
  then show ?thesis
    by (simp add: fold_enqueue_entry_impl fold_modify_distinct keys_def enqueue_def)
qed

lemma map_of_map_snd:
  "map_of (map (\<lambda>e. (fst e, f (snd e))) Q) k = map_option f (map_of Q k)"
  by (induction Q) auto

text \<open>The joins of \<^verbatim>\<open>disconnectAllSlots\<close>, when every listener has its shutdown message.\<close>

lemma for_each_join_entry_drains:
  assumes "distinct ks" and "1 \<le> getMaxWait (pool m)"
    and "\<forall>k \<in> set ks. \<exists>l q. map_of (strandThreads (impl m)) k = Some (Joinable l) \<and>
           pc l \<noteq> Finished \<and> map_of (strandQueues (impl m)) k = Some (q @ [NullTask]) \<and>
           NullTask \<notin> set q \<and> (\<forall>t \<in> set q. run_task t = None)"
  shows "\<exists>Q T. for_each join_entry ks m =
       Returns ()
         (m\<lparr>impl := (impl m)\<lparr>strandQueues := Q, strandThreads := T\<rparr>,
            trace := trace m @
              concat (map (\<lambda>k. map (ListenerCall k) (butlast (queue_of k (impl m))) @
                               [ListenerJoin k]) ks)\<rparr>) \<and>
     keys Q = keys (strandQueues (impl m)) \<and> keys T = keys (strandThreads (impl m))"
  using assms
proof (induction ks arbitrary: m)
  case Nil
  show ?case
    by (rule exI [of _ "strandQueues (impl m)"], rule exI [of _ "strandThreads (impl m)"]) simp
next
  case (Cons k ks)
  obtain l q where l: "map_of (strandThreads (impl m)) k = Some (Joinable l)" "pc l \<noteq> Finished"
    and q: "map_of (strandQueues (impl m)) k = Some (q @ [NullTask])" "NullTask \<notin> set q"
      "\<forall>t \<in> set q. run_task t = None"
    using Cons.prems(3) by auto
  let ?m1 = "m\<lparr>impl := (impl m)\<lparr>strandQueues := modify k (\<lambda>_. []) (strandQueues (impl m)),
                                  strandThreads := modify k (\<lambda>_. NotAThread) (strandThreads (impl m))\<rparr>,
                trace := trace m @ map (ListenerCall k) q @ [ListenerJoin k]\<rparr>"
  have qk: "queue_of k (impl m) = q @ [NullTask]" using q(1) by (simp add: queue_of_def)
  have d: "queueListener (getMaxWait (pool m)) k (q @ [NullTask]) l =
     Some (Runs [] \<lparr>func = NullTask, waitTime = 1, pc = Finished\<rparr> (map (ListenerCall k) q))"
    by (rule queueListener_drains [OF Cons.prems(2) q(2) q(3) l(2)])
  have j: "join_entry k m = Returns () ?m1"
    using l(1) qk d by (simp add: join_entry_def emit_event_def set_impl_def)
  have same: "map_of (strandThreads (impl ?m1)) k' = map_of (strandThreads (impl m)) k' \<and>
      map_of (strandQueues (impl ?m1)) k' = map_of (strandQueues (impl m)) k'"
    if "k' \<in> set ks" for k'
    using that Cons.prems(1) by (auto simp: map_of_modify)
  have "\<exists>Q T. for_each join_entry ks ?m1 =
       Returns ()
         (?m1\<lparr>impl := (impl ?m1)\<lparr>strandQueues := Q, strandThreads := T\<rparr>,
            trace := trace ?m1 @
              concat (map (\<lambda>k. map (ListenerCall k) (butlast (queue_of k (impl ?m1))) @
                               [ListenerJoin k]) ks)\<rparr>) \<and>
     keys Q = keys (strandQueues (impl ?m1)) \<and> keys T = keys (strandThreads (impl ?m1))"
  proof (rule Cons.IH)
    show "distinct ks" using Cons.prems(1) by simp
    show "1 \<le> getMaxWait (pool ?m1)" using Cons.prems(2) by simp
    show "\<forall>k \<in> set ks. \<exists>l q. map_of (strandThreads (impl ?m1)) k = Some (Joinable l) \<and>
           pc l \<noteq> Finished \<and> map_of (strandQueues (impl ?m1)) k = Some (q @ [NullTask]) \<and>
           NullTask \<notin> set q \<and> (\<forall>t \<in> set q. run_task t = None)"
      using Cons.prems(3) same by simp
  qed
  then obtain Q T where r: "for_each join_entry ks ?m1 =
       Returns ()
         (?m1\<lparr>impl := (impl ?m1)\<lparr>strandQueues := Q, strandThreads := T\<rparr>,
            trace := trace ?m1 @
              concat (map (\<lambda>k. map (ListenerCall k) (butlast (queue_of k (impl ?m1))) @
                               [ListenerJoin k]) ks)\<rparr>)"
    and ks: "keys Q = keys (strandQueues (impl ?m1))" "keys T = keys (strandThreads (impl ?m1))"
    by blast
  have c: "map (\<lambda>k. map (ListenerCall k) (butlast (queue_of k (impl ?m1))) @ [ListenerJoin k]) ks =
      map (\<lambda>k. map (ListenerCall k) (butlast (queue_of k (impl m))) @ [ListenerJoin k]) ks"
    using same by (intro map_cong) (simp_all add: queue_of_def)
  show ?case
    apply (rule exI [of _ Q], rule exI [of _ T])
    using j r [unfolded c] ks qk by simp
qed

lemma disconnectAllSlots_returns:
  assumes wf: "well_formed (impl m)" and mw: "1 \<le> getMaxWait (pool m)"
    and ok: "\<forall>k \<in> set (keys (strandSlots (impl m))).
               \<forall>t \<in> set (queue_of k (impl m)). run_task t = None"
  shows "disconnectAllSlots m =
     Returns ()
       (m\<lparr>impl := (impl m)\<lparr>strandThreads := [], strandQueues := [], synchronousSlots := [],
                            asynchronousSlots := [], strandSlots := [], threadPooledSlots := []\<rparr>,
          trace := trace m @
            map (\<lambda>k. QueueEnqueue k NullTask) (keys (strandSlots (impl m))) @
            concat (map (\<lambda>k. map (ListenerCall k) (queue_of k (impl m)) @ [ListenerJoin k])
                      (keys (strandSlots (impl m)))) @
            [ThreadsClear (set (keys (strandSlots (impl m)))),
             QueuesClear (set (keys (strandSlots (impl m)))),
             SlotsClear SynchronousSlots (set (keys (synchronousSlots (impl m)))),
             SlotsClear AsynchronousSlots (set (keys (asynchronousSlots (impl m)))),
             SlotsClear StrandSlots (set (keys (strandSlots (impl m)))),
             SlotsClear ThreadPooledSlots (set (keys (threadPooledSlots (impl m))))]\<rparr>)"
proof -
  let ?K = "keys (strandSlots (impl m))"
  let ?m1 = "fold (\<lambda>i. enqueue_entry i NullTask) (keys (strandQueues (impl m))) m"
  have kq: "keys (strandQueues (impl m)) = ?K" and kt: "keys (strandThreads (impl m)) = ?K"
    and oq: "ordered (strandQueues (impl m))" and ot: "ordered (strandThreads (impl m))"
    using wf by (simp_all add: well_formed_def)
  have i1: "impl ?m1 =
      (impl m)\<lparr>strandQueues := map (\<lambda>e. (fst e, snd e @ [NullTask])) (strandQueues (impl m))\<rparr>"
    by (rule enqueue_all_impl [OF oq])
  have t1: "trace ?m1 = trace m @ map (\<lambda>k. QueueEnqueue k NullTask) ?K"
    by (simp add: fold_enqueue_entry_trace kq)
  have p1: "pool ?m1 = pool m" by simp
  have q1: "map_of (strandQueues (impl ?m1)) k = Some (queue_of k (impl m) @ [NullTask])"
    if "k \<in> set ?K" for k
  proof -
    have "map_count k (strandQueues (impl m))" using that kq by (simp add: map_count_keys)
    then obtain q where "map_of (strandQueues (impl m)) k = Some q"
      by (auto simp: map_count_def)
    then show ?thesis
      using map_of_map_snd [of "\<lambda>q. q @ [NullTask]" "strandQueues (impl m)" k]
      by (simp add: i1 queue_of_def)
  qed
  have ready: "\<forall>k \<in> set ?K. \<exists>l q. map_of (strandThreads (impl ?m1)) k = Some (Joinable l) \<and>
           pc l \<noteq> Finished \<and> map_of (strandQueues (impl ?m1)) k = Some (q @ [NullTask]) \<and>
           NullTask \<notin> set q \<and> (\<forall>t \<in> set q. run_task t = None)"
  proof
    fix k assume k: "k \<in> set ?K"
    then obtain l where l: "map_of (strandThreads (impl m)) k = Some (Joinable l)"
      using well_formed_joinable [OF wf, of k] kt by auto
    then have "(k, Joinable l) \<in> set (strandThreads (impl m))" by (rule map_of_SomeD)
    then have "pc l \<noteq> Finished"
      using wf by (auto simp: well_formed_def list_all_iff live_listener_def)
    then show "\<exists>l q. map_of (strandThreads (impl ?m1)) k = Some (Joinable l) \<and>
           pc l \<noteq> Finished \<and> map_of (strandQueues (impl ?m1)) k = Some (q @ [NullTask]) \<and>
           NullTask \<notin> set q \<and> (\<forall>t \<in> set q. run_task t = None)"
      using l q1 [OF k] well_formed_queue_of [OF wf, of k] ok k by auto
  qed
  have "distinct ?K" using ot kt by (simp add: ordered_iff)
  from for_each_join_entry_drains [OF this, of ?m1] mw ready p1
  obtain Q T where r: "for_each join_entry ?K ?m1 =
       Returns ()
         (?m1\<lparr>impl := (impl ?m1)\<lparr>strandQueues := Q, strandThreads := T\<rparr>,
            trace := trace ?m1 @
              concat (map (\<lambda>k. map (ListenerCall k) (butlast (queue_of k (impl ?m1))) @
                               [ListenerJoin k]) ?K)\<rparr>)"
    and ks: "keys Q = keys (strandQueues (impl ?m1))" "keys T = keys (strandThreads (impl ?m1))"
    by auto
  have c: "map (\<lambda>k. map (ListenerCall k) (butlast (queue_of k (impl ?m1))) @ [ListenerJoin k]) ?K =
      map (\<lambda>k. map (ListenerCall k) (queue_of k (impl m)) @ [ListenerJoin k]) ?K"
  proof (rule map_cong [OF refl])
    fix k assume "k \<in> set ?K"
    from q1 [OF this] have "queue_of k (impl ?m1) = queue_of k (impl m) @ [NullTask]"
      by (simp add: queue_of_def)
    then show "map (ListenerCall k) (butlast (queue_of k (impl ?m1))) @ [ListenerJoin k] =
        map (ListenerCall k) (queue_of k (impl m)) @ [ListenerJoin k]"
      by simp
  qed
  have "keys (strandQueues (impl ?m1)) = ?K"
    unfolding i1 using kq by (simp add: keys_def comp_def)
  then have kQ: "keys Q = ?K" and kT: "keys T = ?K"
    using ks kt by simp_all
  let ?m2 = "?m1\<lparr>impl := (impl ?m1)\<lparr>strandQueues := Q, strandThreads := T\<rparr>,
            trace := trace ?m1 @
              concat (map (\<lambda>k. map (ListenerCall k) (queue_of k (impl m)) @ [ListenerJoin k]) ?K)\<rparr>"
  have fe: "for_each join_entry (keys (strandThreads (impl ?m1))) ?m1 = Returns () ?m2"
    using r [unfolded c] by (simp add: kt)
  have "disconnectAllSlots m = Returns () (clear_all ?m2)"
    unfolding disconnectAllSlots_def Let_def fe by simp
  moreover have "clear_all ?m2 =
       m\<lparr>impl := (impl m)\<lparr>strandThreads := [], strandQueues := [], synchronousSlots := [],
                            asynchronousSlots := [], strandSlots := [], threadPooledSlots := []\<rparr>,
          trace := trace m @
            map (\<lambda>k. QueueEnqueue k NullTask) (keys (strandSlots (impl m))) @
            concat (map (\<lambda>k. map (ListenerCall k) (queue_of k (impl m)) @ [ListenerJoin k])
                      (keys (strandSlots (impl m)))) @
            [ThreadsClear (set (keys (strandSlots (impl m)))),
             QueuesClear (set (keys (strandSlots (impl m)))),
             SlotsClear SynchronousSlots (set (keys (synchronousSlots (impl m)))),
             SlotsClear AsynchronousSlots (set (keys (asynchronousSlots (impl m)))),
             SlotsClear StrandSlots (set (keys (strandSlots (impl m)))),
             SlotsClear ThreadPooledSlots (set (keys (threadPooledSlots (impl m))))]\<rparr>"
    unfolding clear_all_def Let_def i1 t1
    by (simp add: kQ kT emit_event_def fold_enqueue_entry_more)
  ultimately show ?thesis by simp
qed

text \<open>What the listener does is no step of a handshake.\<close>

lemma handshake_of_simps [simp]:
  "handshake_of k [] = []"
  "handshake_of k (es @ es') = handshake_of k es @ handshake_of k es'"
  "handshake_of k (e # es) =
     (case step_of k e of None \<Rightarrow> handshake_of k es | Some x \<Rightarrow> x # handshake_of k es)"
  by (simp_all add: handshake_of_def List.map_filter_def split: option.splits)

lemma blockingDequeue_step_handshake:
  "blockingDequeue_step i q l es0 = Runs q' l' es \<or> blockingDequeue_step i q l es0 = Aborts es \<Longrightarrow>
     handshake_of k es = handshake_of k es0"
  by (cases q)
     (auto simp: blockingDequeue_step_def call_if_set_cases split: option.splits if_splits)

lemma wait_check_handshake:
  assumes "wait_check maxW i q l es0 = Runs q' l' es \<or> wait_check maxW i q l es0 = Aborts es"
  shows "handshake_of k es = handshake_of k es0"
proof (cases "waitTime l > maxW")
  case True
  then show ?thesis using assms blockingDequeue_step_handshake [of i q l es0 q' l' es k]
    by (simp add: wait_check_def)
next
  case False
  then show ?thesis using assms by (auto simp: wait_check_def)
qed

lemma loop_body_handshake:
  assumes "loop_body maxW i q l = Runs q' l' es \<or> loop_body maxW i q l = Aborts es"
  shows "handshake_of k es = []"
proof (cases q)
  case Nil
  then have "wait_check maxW i q (l\<lparr>waitTime := 2 * waitTime l\<rparr>) [ListenerSleep i (waitTime l)]
        = Runs q' l' es \<or>
      wait_check maxW i q (l\<lparr>waitTime := 2 * waitTime l\<rparr>) [ListenerSleep i (waitTime l)]
        = Aborts es"
    using assms by (simp add: loop_body_def)
  from wait_check_handshake [OF this, of k] show ?thesis by simp
next
  case (Cons t q0)
  show ?thesis
  proof (cases "snd (call_if_set i t)")
    case (Some e)
    then show ?thesis using assms Cons
      by (auto simp: loop_body_def call_if_set_cases split: if_splits)
  next
    case None
    then have "wait_check maxW i q0 (l\<lparr>func := t, waitTime := 1\<rparr>) (fst (call_if_set i t))
          = Runs q' l' es \<or>
        wait_check maxW i q0 (l\<lparr>func := t, waitTime := 1\<rparr>) (fst (call_if_set i t)) = Aborts es"
      using assms Cons by (auto simp: loop_body_def split: prod.splits)
    from wait_check_handshake [OF this, of k] show ?thesis
      by (auto simp: call_if_set_cases split: if_splits)
  qed
qed

lemma listener_step_handshake:
  assumes "listener_step maxW i q l = Runs q' l' es \<or> listener_step maxW i q l = Aborts es"
  shows "handshake_of k es = []"
proof (cases "pc l")
  case AtLoopHead
  then show ?thesis using assms loop_body_handshake [of maxW i q l q' l' es k]
    by (simp add: listener_step_def)
next
  case InBlockingDequeue
  then show ?thesis using assms blockingDequeue_step_handshake [of i q l "[]" q' l' es k]
    by (auto simp: listener_step_def)
next
  case Finished
  then show ?thesis using assms by (auto simp: listener_step_def)
qed

lemma queueListener_handshake:
  assumes "queueListener maxW i q l = Some r"
  shows "(\<forall>q' l' es. r = Runs q' l' es \<longrightarrow> handshake_of k es = []) \<and>
     (\<forall>es. r = Aborts es \<longrightarrow> handshake_of k es = [])"
proof -
  let ?P = "\<lambda>r. (\<forall>q' l' es. r = Runs q' l' es \<longrightarrow> handshake_of k es = []) \<and>
     (\<forall>es. r = Aborts es \<longrightarrow> handshake_of k es = [])"
  show ?thesis
  proof (rule queueListener.raw_induct [where P = "\<lambda>_ _ _ _ r. ?P r", OF _ assms])
    fix f :: "nat \<Rightarrow> slot_id \<Rightarrow> 'a task list \<Rightarrow> 'a listener \<Rightarrow> 'a listener_result option"
      and maxW i q l r
    assume ih: "\<And>maxW i q l r. f maxW i q l = Some r \<Longrightarrow> ?P r"
    assume b: "(if pc l = Finished then Some (Runs q l [])
      else if pc l = InBlockingDequeue \<and> q = [] then None
      else (case listener_step maxW i q l of
              Runs q' l' es \<Rightarrow> Option.bind (f maxW i q' l') (\<lambda>r. Some (prepend es r))
            | Aborts es \<Rightarrow> Some (Aborts es))) = Some r"
    show "?P r"
    proof (cases "pc l = Finished")
      case True
      then show ?thesis using b by auto
    next
      case nf: False
      show ?thesis
      proof (cases "listener_step maxW i q l")
        case (Aborts es)
        then show ?thesis
          using b nf listener_step_handshake [of maxW i q l _ _ es k]
          by (auto split: if_splits)
      next
        case (Runs q1 l1 es1)
        then obtain r1 where r1: "f maxW i q1 l1 = Some r1" and r: "r = prepend es1 r1"
          using b nf by (auto split: if_splits Option.bind_splits)
        have h: "handshake_of k es1 = []"
          using listener_step_handshake [of maxW i q l q1 l1 es1 k] Runs by simp
        show ?thesis using ih [OF r1] r h by (cases r1) auto
      qed
    qed
  qed
qed

lemma join_entry_handshake:
  "\<exists>es. trace (state_of (join_entry i m)) = trace m @ es \<and>
     handshake_of k es =
       (if k = i \<and> (\<exists>m'. join_entry i m = Returns () m') then [ListenerJoined] else [])"
proof (cases "\<exists>l. map_of (strandThreads (impl m)) i = Some (Joinable l)")
  case False
  then have "join_entry i m = Fails system_error m"
    by (auto simp: join_entry_def split: option.splits std_thread.splits)
  then show ?thesis by simp
next
  case True
  then obtain l where l: "map_of (strandThreads (impl m)) i = Some (Joinable l)" by blast
  show ?thesis
  proof (cases "queueListener (getMaxWait (pool m)) i (queue_of i (impl m)) l")
    case None
    then show ?thesis using l by (simp add: join_entry_def)
  next
    case (Some r)
    from queueListener_handshake [OF this, of k] show ?thesis
      using l Some by (cases r) (auto simp: join_entry_def)
  qed
qed

lemma for_each_join_entry_handshake:
  assumes "distinct ks"
  shows "\<exists>es. trace (state_of (for_each join_entry ks m)) = trace m @ es \<and>
     (handshake_of k es = [] \<or> k \<in> set ks \<and> handshake_of k es = [ListenerJoined]) \<and>
     ((\<exists>m'. for_each join_entry ks m = Returns () m') \<longrightarrow>
        handshake_of k es = (if k \<in> set ks then [ListenerJoined] else []))"
  using assms
proof (induction ks arbitrary: m)
  case Nil
  show ?case by simp
next
  case (Cons a ks)
  obtain es1 where es1: "trace (state_of (join_entry a m)) = trace m @ es1"
    "handshake_of k es1 =
       (if k = a \<and> (\<exists>m'. join_entry a m = Returns () m') then [ListenerJoined] else [])"
    using join_entry_handshake [of a m k] by blast
  show ?case
  proof (cases "join_entry a m")
    case (Fails e m1)
    then show ?thesis using es1 by auto
  next
    case (Returns u m1)
    obtain es2 where es2: "trace (state_of (for_each join_entry ks m1)) = trace m1 @ es2"
      "handshake_of k es2 = [] \<or> k \<in> set ks \<and> handshake_of k es2 = [ListenerJoined]"
      "(\<exists>m'. for_each join_entry ks m1 = Returns () m') \<longrightarrow>
        handshake_of k es2 = (if k \<in> set ks then [ListenerJoined] else [])"
      using Cons.IH [of m1] Cons.prems by auto
    have t: "trace (state_of (for_each join_entry (a # ks) m)) = trace m @ es1 @ es2"
      using Returns es1(1) es2(1) by simp
    have h: "handshake_of k (es1 @ es2) =
        (if k = a then [ListenerJoined] else []) @ handshake_of k es2"
      using es1(2) Returns by simp
    show ?thesis
    proof (intro exI conjI)
      show "trace (state_of (for_each join_entry (a # ks) m)) = trace m @ es1 @ es2" by (rule t)
      show "handshake_of k (es1 @ es2) = [] \<or>
          k \<in> set (a # ks) \<and> handshake_of k (es1 @ es2) = [ListenerJoined]"
        using h es2(2) Cons.prems by auto
      show "(\<exists>m'. for_each join_entry (a # ks) m = Returns () m') \<longrightarrow>
        handshake_of k (es1 @ es2) = (if k \<in> set (a # ks) then [ListenerJoined] else [])"
        using h es2(2,3) Returns Cons.prems by auto
    qed
  qed
qed

lemma handshake_of_map:
  assumes "distinct K"
  shows "handshake_of k (map (\<lambda>j. QueueEnqueue j NullTask) K) =
      (if k \<in> set K then [ShutdownPushed] else [])"
  using assms by (induction K) auto

lemma join_entry_keys:
  "keys (strandThreads (impl (state_of (join_entry i m)))) = keys (strandThreads (impl m)) \<and>
   keys (strandQueues (impl (state_of (join_entry i m)))) = keys (strandQueues (impl m)) \<and>
   keys (synchronousSlots (impl (state_of (join_entry i m)))) = keys (synchronousSlots (impl m)) \<and>
   keys (asynchronousSlots (impl (state_of (join_entry i m)))) = keys (asynchronousSlots (impl m)) \<and>
   keys (strandSlots (impl (state_of (join_entry i m)))) = keys (strandSlots (impl m)) \<and>
   keys (threadPooledSlots (impl (state_of (join_entry i m)))) = keys (threadPooledSlots (impl m))"
  by (auto simp: join_entry_def split: option.splits std_thread.splits listener_result.splits)

lemma keys_fold_modify: "keys (fold (\<lambda>i. modify i f) ks Q) = keys Q"
  by (induction ks arbitrary: Q) simp_all

text \<open>Whatever the outcome, the steps of a handshake happen in their order.\<close>

lemma disconnectSlot_handshake:
  "prefix (handshake_of k (drop (length (trace m)) (trace (state_of (disconnectSlot m i)))))
     handshake"
proof (cases "findSlotMapWithId (impl m) i")
  case None
  then show ?thesis by (simp add: disconnectSlot_def)
next
  case (Some sm)
  show ?thesis
  proof (cases "sm = StrandSlots")
    case False
    then show ?thesis using Some by (simp add: disconnectSlot_def erase_slot_def)
  next
    case True
    let ?m0 = "set_impl (\<lambda>s. s\<lparr>strandThreads := emplace i NotAThread (strandThreads s)\<rparr>)
      (enqueue_strand i NullTask m)"
    obtain es where es: "trace (state_of (join_entry i ?m0)) = trace ?m0 @ es"
      "handshake_of k es =
         (if k = i \<and> (\<exists>m'. join_entry i ?m0 = Returns () m') then [ListenerJoined] else [])"
      using join_entry_handshake [of i ?m0 k] by blast
    show ?thesis
    proof (cases "join_entry i ?m0")
      case (Fails e m1)
      then have "trace (state_of (disconnectSlot m i)) = trace m @ QueueEnqueue i NullTask # es"
        using Some True es(1) by (simp add: disconnectSlot_def join_strand_def)
      then show ?thesis using es(2) Fails by (simp add: handshake_def)
    next
      case (Returns u m1)
      then have "trace (state_of (disconnectSlot m i)) =
          trace m @ QueueEnqueue i NullTask # es @
            [ThreadDestroy i, QueueDestroy i, SlotErase StrandSlots i]"
        using Some True es(1) by (simp add: disconnectSlot_def join_strand_def erase_slot_def)
      then show ?thesis using es(2) Returns by (simp add: handshake_def)
    qed
  qed
qed

lemma disconnectAllSlots_handshake:
  assumes wf: "well_formed (impl (m :: 'a machine))"
  shows "prefix (handshake_of k (drop (length (trace m)) (trace (state_of (disconnectAllSlots m)))))
     handshake"
proof -
  let ?K = "keys (strandSlots (impl m))"
  let ?m1 = "fold (\<lambda>i. enqueue_entry i NullTask) (keys (strandQueues (impl m))) m"
  have kq: "keys (strandQueues (impl m)) = ?K" and kt: "keys (strandThreads (impl m)) = ?K"
    and ot: "ordered (strandThreads (impl m))"
    using wf by (simp_all add: well_formed_def)
  have d: "distinct ?K" using ot kt by (simp add: ordered_iff)
  have t1: "trace ?m1 = trace m @ map (\<lambda>k. QueueEnqueue k NullTask) ?K"
    by (simp add: fold_enqueue_entry_trace kq)
  have k1: "keys (strandThreads (impl ?m1)) = ?K" by (simp add: kt)
  obtain es where es: "trace (state_of (for_each join_entry ?K ?m1)) = trace ?m1 @ es"
    "handshake_of k es = [] \<or> k \<in> set ?K \<and> handshake_of k es = [ListenerJoined]"
    "(\<exists>m'. for_each join_entry ?K ?m1 = Returns () m') \<longrightarrow>
        handshake_of k es = (if k \<in> set ?K then [ListenerJoined] else [])"
    using for_each_join_entry_handshake [OF d, of ?m1 k] by blast
  show ?thesis
  proof (cases "for_each join_entry ?K ?m1")
    case (Fails e m2)
    then have "trace (state_of (disconnectAllSlots m)) =
        trace m @ map (\<lambda>k. QueueEnqueue k NullTask) ?K @ es"
      using es(1) t1 unfolding disconnectAllSlots_def Let_def k1 by simp
    then show ?thesis using es(2) by (auto simp: handshake_of_map [OF d] handshake_def)
  next
    case (Returns u m2)
    have inv: "keys (strandThreads (impl (state_of (for_each join_entry ?K ?m1)))) = ?K \<and>
        keys (strandQueues (impl (state_of (for_each join_entry ?K ?m1)))) = ?K \<and>
        keys (strandSlots (impl (state_of (for_each join_entry ?K ?m1)))) = ?K"
    proof (rule for_each_invariant [where P = "\<lambda>x. keys (strandThreads (impl x)) = ?K \<and>
        keys (strandQueues (impl x)) = ?K \<and> keys (strandSlots (impl x)) = ?K"])
      show "keys (strandThreads (impl ?m1)) = ?K \<and> keys (strandQueues (impl ?m1)) = ?K \<and>
          keys (strandSlots (impl ?m1)) = ?K"
        using kq kt by (simp add: fold_enqueue_entry_impl keys_fold_modify)
    next
      fix x and s :: "'a machine"
      assume "keys (strandThreads (impl s)) = ?K \<and> keys (strandQueues (impl s)) = ?K \<and>
          keys (strandSlots (impl s)) = ?K"
      then show "keys (strandThreads (impl (state_of (join_entry x s)))) = ?K \<and>
          keys (strandQueues (impl (state_of (join_entry x s)))) = ?K \<and>
          keys (strandSlots (impl (state_of (join_entry x s)))) = ?K"
        using join_entry_keys [of x s] by simp
    qed
    then have k2: "keys (strandThreads (impl m2)) = ?K" "keys (strandQueues (impl m2)) = ?K"
      "keys (strandSlots (impl m2)) = ?K"
      using Returns by simp_all
    have "trace (state_of (disconnectAllSlots m)) =
        trace m @ map (\<lambda>k. QueueEnqueue k NullTask) ?K @ es @
          [ThreadsClear (set ?K), QueuesClear (set ?K),
           SlotsClear SynchronousSlots (set (keys (synchronousSlots (impl m2)))),
           SlotsClear AsynchronousSlots (set (keys (asynchronousSlots (impl m2)))),
           SlotsClear StrandSlots (set ?K),
           SlotsClear ThreadPooledSlots (set (keys (threadPooledSlots (impl m2))))]"
      using es(1) t1 Returns k2 unfolding disconnectAllSlots_def Let_def k1
      by (simp add: clear_all_def Let_def)
    moreover have "handshake_of k es = (if k \<in> set ?K then [ListenerJoined] else [])"
      using es(3) Returns by auto
    ultimately show ?thesis
      by (simp add: handshake_of_map [OF d] handshake_def)
  qed
qed

lemma strand_id_found:
  assumes "one_registry s" and "map_count i (strandSlots s)"
  shows "findSlotMapWithId s i = Some StrandSlots"
  using assms
  by (auto simp: one_registry_def held_ids_def findSlotMapWithId_def map_count_keys)

subsection \<open>After the id counter has wrapped\<close>

lemma run_append: "run m (xs @ ys) = Option.bind (run m xs) (\<lambda>m'. run m' ys)"
proof (induction xs arbitrary: m)
  case Nil
  then show ?case by simp
next
  case (Cons x xs)
  then show ?case by (cases "step m x") simp_all
qed

text \<open>Pooled connects always return, and leave everything but the pooled slots alone.\<close>

lemma run_pooled_connects:
  "\<exists>m'. run m (replicate n (Connect THREAD_POOLED slot)) = Some m' \<and>
     currentId (impl m') = currentId (impl m) + of_nat n \<and>
     synchronousSlots (impl m') = synchronousSlots (impl m) \<and>
     asynchronousSlots (impl m') = asynchronousSlots (impl m) \<and>
     strandSlots (impl m') = strandSlots (impl m) \<and>
     strandThreads (impl m') = strandThreads (impl m) \<and>
     strandQueues (impl m') = strandQueues (impl m)"
proof (induction n arbitrary: m)
  case 0
  then show ?case by simp
next
  case (Suc n)
  let ?m1 = "state_of (connectSlot m THREAD_POOLED slot)"
  have s: "step m (Connect THREAD_POOLED slot) = Returns (Some (sint (currentId (impl m)))) ?m1"
    by (simp add: connectSlot_def Let_def STRAND_def THREAD_POOLED_def)
  have f: "currentId (impl ?m1) = currentId (impl m) + 1"
    "synchronousSlots (impl ?m1) = synchronousSlots (impl m)"
    "asynchronousSlots (impl ?m1) = asynchronousSlots (impl m)"
    "strandSlots (impl ?m1) = strandSlots (impl m)"
    "strandThreads (impl ?m1) = strandThreads (impl m)"
    "strandQueues (impl ?m1) = strandQueues (impl m)"
    by (simp_all add: connectSlot_def Let_def getSlotMap_def STRAND_def THREAD_POOLED_def
        ASYNCHRONOUS_def)
  from Suc [of ?m1] obtain m' where
    "run ?m1 (replicate n (Connect THREAD_POOLED slot)) = Some m'"
    "currentId (impl m') = currentId (impl ?m1) + of_nat n"
    "synchronousSlots (impl m') = synchronousSlots (impl ?m1)"
    "asynchronousSlots (impl m') = asynchronousSlots (impl ?m1)"
    "strandSlots (impl m') = strandSlots (impl ?m1)"
    "strandThreads (impl m') = strandThreads (impl ?m1)"
    "strandQueues (impl m') = strandQueues (impl ?m1)"
    by blast
  then show ?case using s f by (simp add: add.assoc)
qed

lemma wrapped_strand_run:
  assumes "(1 :: 32 word) + of_nat n = 0"
  shows "\<exists>W. run (fresh mw g c)
            (Connect STRAND f # replicate n (Connect THREAD_POOLED f') @ [Connect SYNCHRONOUS h]) =
          Some W \<and>
     synchronousSlots (impl W) = [(0, h)] \<and> strandSlots (impl W) = [(0, f)] \<and>
     strandThreads (impl W) = [(0, Joinable initial_listener)] \<and>
     strandQueues (impl W) = [(0, [])]"
proof -
  let ?m1 = "state_of (connectSlot (fresh mw g c) STRAND f)"
  have s1: "step (fresh mw g c) (Connect STRAND f) = Returns (Some 0) ?m1"
    by (simp add: connectSlot_def Let_def fresh_def construct_def map_count_def emplace_def)
  have f1: "currentId (impl ?m1) = 1" "synchronousSlots (impl ?m1) = []"
    "strandSlots (impl ?m1) = [(0, f)]" "strandThreads (impl ?m1) = [(0, Joinable initial_listener)]"
    "strandQueues (impl ?m1) = [(0, [])]"
    by (simp_all add: connectSlot_def Let_def fresh_def construct_def map_count_def emplace_def
        getSlotMap_def STRAND_def ASYNCHRONOUS_def THREAD_POOLED_def emit_event_def)
  from run_pooled_connects [of ?m1 n f'] obtain m2 where
    r2: "run ?m1 (replicate n (Connect THREAD_POOLED f')) = Some m2"
    and f2: "currentId (impl m2) = currentId (impl ?m1) + of_nat n"
      "synchronousSlots (impl m2) = synchronousSlots (impl ?m1)"
      "strandSlots (impl m2) = strandSlots (impl ?m1)"
      "strandThreads (impl m2) = strandThreads (impl ?m1)"
      "strandQueues (impl m2) = strandQueues (impl ?m1)"
    by blast
  have c2: "currentId (impl m2) = 0" using f2(1) f1(1) assms by simp
  let ?m3 = "state_of (connectSlot m2 SYNCHRONOUS h)"
  have s3: "step m2 (Connect SYNCHRONOUS h) = Returns (Some 0) ?m3"
    by (simp add: connectSlot_def Let_def c2 SYNCHRONOUS_def STRAND_def THREAD_POOLED_def)
  have f3: "synchronousSlots (impl ?m3) = [(0, h)]" "strandSlots (impl ?m3) = [(0, f)]"
    "strandThreads (impl ?m3) = [(0, Joinable initial_listener)]"
    "strandQueues (impl ?m3) = [(0, [])]"
    using f1 f2
    by (simp_all add: connectSlot_def Let_def c2 SYNCHRONOUS_def STRAND_def THREAD_POOLED_def
        ASYNCHRONOUS_def getSlotMap_def emplace_def map_count_def)
  have "run (fresh mw g c)
      (Connect STRAND f # replicate n (Connect THREAD_POOLED f') @ [Connect SYNCHRONOUS h]) =
      Some ?m3"
    using s1 r2 s3 by (simp add: run_append)
  then show ?thesis using f3 by blast
qed

text \<open>
  Claim C3, as the code has it.  In a state that an engine has reached, with a maximum wait
  of at least 1 ns: when \<^verbatim>\<open>findSlotMapWithId\<close> finds the id in the strand slot map and the
  tasks waiting in that strand's queue return, \<^verbatim>\<open>disconnectSlot\<close> returns after it has
  enqueued \<^verbatim>\<open>nullptr\<close> on the strand's queue, the listener has run the backlog, the join
  has returned, the thread object and the queue have been erased, and last the slot; when
  the waiting tasks of all strands return, \<^verbatim>\<open>disconnectAllSlots\<close> returns after it has
  enqueued \<^verbatim>\<open>nullptr\<close> on every queue, joined every listener, and cleared the threads,
  the queues and the four slot maps, one \<^verbatim>\<open>clear()\<close> after the other.  Whatever the
  outcome of either call, the steps of the handshake of any strand \<open>k\<close> that took place are
  an initial part of: \<^verbatim>\<open>nullptr\<close> enqueued, listener joined, thread object released, queue
  released, slot removed.  \<^verbatim>\<open>findSlotMapWithId\<close> looks in the synchronous and the
  asynchronous slot map first: an id it finds in another slot map than the strand one has
  that entry erased and nothing else done.  With fewer than \<open>2^32\<close> \<^verbatim>\<open>connectSlot\<close> calls
  an id held by the strand slot map is held by no other, and is found there.
\<close>

theorem strand_disconnect_handshake:
  assumes "run (fresh mw g c) xs = Some m"
  shows
    "(1 \<le> mw \<and> findSlotMapWithId (impl m) i = Some StrandSlots \<and>
      (\<forall>t \<in> set (queue_of i (impl m)). run_task t = None) \<longrightarrow>
        disconnectSlot m i =
          Returns ()
            (m\<lparr>impl := (impl m)\<lparr>strandThreads := erase i (strandThreads (impl m)),
                                 strandQueues := erase i (strandQueues (impl m)),
                                 strandSlots := erase i (strandSlots (impl m))\<rparr>,
               trace := trace m @ [QueueEnqueue i NullTask] @
                          map (ListenerCall i) (queue_of i (impl m)) @
                          [ListenerJoin i, ThreadDestroy i, QueueDestroy i,
                           SlotErase StrandSlots i]\<rparr>)) \<and>
     (1 \<le> mw \<and>
      (\<forall>j \<in> set (keys (strandSlots (impl m))).
         \<forall>t \<in> set (queue_of j (impl m)). run_task t = None) \<longrightarrow>
        disconnectAllSlots m =
          Returns ()
            (m\<lparr>impl := (impl m)\<lparr>strandThreads := [], strandQueues := [],
                                 synchronousSlots := [], asynchronousSlots := [],
                                 strandSlots := [], threadPooledSlots := []\<rparr>,
               trace := trace m @
                 map (\<lambda>j. QueueEnqueue j NullTask) (keys (strandSlots (impl m))) @
                 concat (map (\<lambda>j. map (ListenerCall j) (queue_of j (impl m)) @ [ListenerJoin j])
                           (keys (strandSlots (impl m)))) @
                 [ThreadsClear (set (keys (strandSlots (impl m)))),
                  QueuesClear (set (keys (strandSlots (impl m)))),
                  SlotsClear SynchronousSlots (set (keys (synchronousSlots (impl m)))),
                  SlotsClear AsynchronousSlots (set (keys (asynchronousSlots (impl m)))),
                  SlotsClear StrandSlots (set (keys (strandSlots (impl m)))),
                  SlotsClear ThreadPooledSlots (set (keys (threadPooledSlots (impl m))))]\<rparr>)) \<and>
     prefix (handshake_of k (drop (length (trace m)) (trace (state_of (disconnectSlot m i)))))
       handshake \<and>
     prefix (handshake_of k (drop (length (trace m)) (trace (state_of (disconnectAllSlots m)))))
       handshake \<and>
     (findSlotMapWithId (impl m) i = Some sm \<and> sm \<noteq> StrandSlots \<longrightarrow>
        disconnectSlot m i = Returns () (erase_slot sm i m)) \<and>
     (length (filter is_connect xs) < 2 ^ 32 \<and> map_count i (strandSlots (impl m)) \<longrightarrow>
        findSlotMapWithId (impl m) i = Some StrandSlots)"
proof -
  have wf: "well_formed (impl m)" by (rule well_formed_reachable [OF assms])
  have mw: "getMaxWait (pool m) = mw"
    using maxWait_run [OF assms] by (simp add: fresh_def new_pool_def getMaxWait_def)
  have a: "disconnectSlot m i =
          Returns ()
            (m\<lparr>impl := (impl m)\<lparr>strandThreads := erase i (strandThreads (impl m)),
                                 strandQueues := erase i (strandQueues (impl m)),
                                 strandSlots := erase i (strandSlots (impl m))\<rparr>,
               trace := trace m @ [QueueEnqueue i NullTask] @
                          map (ListenerCall i) (queue_of i (impl m)) @
                          [ListenerJoin i, ThreadDestroy i, QueueDestroy i,
                           SlotErase StrandSlots i]\<rparr>)"
    if "1 \<le> mw \<and> findSlotMapWithId (impl m) i = Some StrandSlots \<and>
      (\<forall>t \<in> set (queue_of i (impl m)). run_task t = None)"
    using disconnectSlot_strand_returns [OF wf, of i] that mw by simp
  have b: "disconnectAllSlots m =
          Returns ()
            (m\<lparr>impl := (impl m)\<lparr>strandThreads := [], strandQueues := [],
                                 synchronousSlots := [], asynchronousSlots := [],
                                 strandSlots := [], threadPooledSlots := []\<rparr>,
               trace := trace m @
                 map (\<lambda>j. QueueEnqueue j NullTask) (keys (strandSlots (impl m))) @
                 concat (map (\<lambda>j. map (ListenerCall j) (queue_of j (impl m)) @ [ListenerJoin j])
                           (keys (strandSlots (impl m)))) @
                 [ThreadsClear (set (keys (strandSlots (impl m)))),
                  QueuesClear (set (keys (strandSlots (impl m)))),
                  SlotsClear SynchronousSlots (set (keys (synchronousSlots (impl m)))),
                  SlotsClear AsynchronousSlots (set (keys (asynchronousSlots (impl m)))),
                  SlotsClear StrandSlots (set (keys (strandSlots (impl m)))),
                  SlotsClear ThreadPooledSlots (set (keys (threadPooledSlots (impl m))))]\<rparr>)"
    if "1 \<le> mw \<and>
      (\<forall>j \<in> set (keys (strandSlots (impl m))).
         \<forall>t \<in> set (queue_of j (impl m)). run_task t = None)"
    using disconnectAllSlots_returns [OF wf] that mw by simp
  have c: "findSlotMapWithId (impl m) i = Some StrandSlots"
    if "length (filter is_connect xs) < 2 ^ 32 \<and> map_count i (strandSlots (impl m))"
    using ids_reachable [OF assms] that strand_id_found [of "impl m" i] by blast
  have d: "disconnectSlot m i = Returns () (erase_slot sm i m)"
    if "findSlotMapWithId (impl m) i = Some sm \<and> sm \<noteq> StrandSlots"
    using that by (simp add: disconnectSlot_def)
  show ?thesis
    using a b c d disconnectSlot_handshake [of k m i] disconnectAllSlots_handshake [OF wf, of k]
    by blast
qed

theorem strand_disconnect_handshake_witness:
  "strands_backlog = Some (the strands_backlog) \<and>
   findSlotMapWithId (impl (the strands_backlog)) 1 = Some StrandSlots \<and>
   drop (length (trace (the strands_backlog)))
     (trace (state_of (disconnectSlot (the strands_backlog) 1))) =
     [QueueEnqueue 1 NullTask,
      ListenerCall 1 (BoundCall 1 (Target (\<lambda>_. Returned)) 5),
      ListenerCall 1 (BoundCall 1 (Target (\<lambda>_. Returned)) 6),
      ListenerJoin 1, ThreadDestroy 1, QueueDestroy 1, SlotErase StrandSlots 1] \<and>
   keys (strandSlots (impl (state_of (disconnectSlot (the strands_backlog) 1)))) = [0] \<and>
   drop (length (trace (the strands_backlog)))
     (trace (state_of (disconnectAllSlots (the strands_backlog)))) =
     [QueueEnqueue 0 NullTask, QueueEnqueue 1 NullTask,
      ListenerCall 0 (BoundCall 0 (Target (\<lambda>_. Returned)) 6), ListenerJoin 0,
      ListenerCall 1 (BoundCall 1 (Target (\<lambda>_. Returned)) 5),
      ListenerCall 1 (BoundCall 1 (Target (\<lambda>_. Returned)) 6), ListenerJoin 1,
      ThreadsClear {0, 1}, QueuesClear {0, 1}, SlotsClear SynchronousSlots {},
      SlotsClear AsynchronousSlots {}, SlotsClear StrandSlots {0, 1},
      SlotsClear ThreadPooledSlots {}] \<and>
   prefix (handshake_of 1 (drop (length (trace (the strands_backlog)))
             (trace (state_of (disconnectAllSlots (the strands_backlog))))))
     handshake \<and>
   handshake_of 1 (drop (length (trace (the strands_backlog)))
             (trace (state_of (disconnectAllSlots (the strands_backlog))))) = handshake \<and>
   findSlotMapWithId (impl (one_of_each :: nat machine)) 1 = Some AsynchronousSlots \<and>
   disconnectSlot (one_of_each :: nat machine) 1 =
     Returns () (erase_slot AsynchronousSlots 1 one_of_each) \<and>
   drop (length (trace (one_of_each :: nat machine)))
     (trace (state_of (disconnectSlot (one_of_each :: nat machine) 1))) =
     [SlotErase AsynchronousSlots 1]"
proof -
  have r0: "strands_backlog = Some (the strands_backlog)"
    by (simp add: strands_backlog_def engine_defs)
  have r: "run (fresh 1000 False 1024)
       [Connect STRAND (Target (\<lambda>_. Returned)), Connect STRAND (Target (\<lambda>_. Returned)),
        Emit 5, ListenerRuns 0, Emit 6] = Some (the strands_backlog)"
    unfolding strands_backlog_def [symmetric] by (rule r0)
  have ss: "strandSlots (impl (the strands_backlog)) =
      [(0, Target (\<lambda>_. Returned)), (1, Target (\<lambda>_. Returned))]"
    by (simp add: strands_backlog_def engine_defs)
  note t = strand_disconnect_handshake [OF r, of 1 1 AsynchronousSlots]
  have f: "findSlotMapWithId (impl (the strands_backlog)) 1 = Some StrandSlots"
    using t [THEN conjunct2, THEN conjunct2, THEN conjunct2, THEN conjunct2, THEN conjunct2]
    by (simp add: ss map_count_def)
  have os: "synchronousSlots (impl (the strands_backlog)) = []"
    "asynchronousSlots (impl (the strands_backlog)) = []"
    "threadPooledSlots (impl (the strands_backlog)) = []"
    by (simp_all add: strands_backlog_def engine_defs)
  have q0: "queue_of 0 (impl (the strands_backlog)) = [BoundCall 0 (Target (\<lambda>_. Returned)) 6]"
    by (simp add: strands_backlog_def engine_defs)
  have q1: "queue_of 1 (impl (the strands_backlog)) =
      [BoundCall 1 (Target (\<lambda>_. Returned)) 5, BoundCall 1 (Target (\<lambda>_. Returned)) 6]"
    by (simp add: strands_backlog_def engine_defs)
  have d1: "disconnectSlot (the strands_backlog) 1 =
      Returns ()
            ((the strands_backlog)\<lparr>impl := (impl (the strands_backlog))\<lparr>strandThreads := erase 1 (strandThreads (impl (the strands_backlog))),
                                 strandQueues := erase 1 (strandQueues (impl (the strands_backlog))),
                                 strandSlots := erase 1 (strandSlots (impl (the strands_backlog)))\<rparr>,
               trace := trace (the strands_backlog) @ [QueueEnqueue 1 NullTask] @
                          map (ListenerCall 1) (queue_of 1 (impl (the strands_backlog))) @
                          [ListenerJoin 1, ThreadDestroy 1, QueueDestroy 1,
                           SlotErase StrandSlots 1]\<rparr>)"
    using t [THEN conjunct1] f q1 by simp
  have d2: "disconnectAllSlots (the strands_backlog) =
      Returns ()
            ((the strands_backlog)\<lparr>impl := (impl (the strands_backlog))\<lparr>strandThreads := [], strandQueues := [],
                                 synchronousSlots := [], asynchronousSlots := [],
                                 strandSlots := [], threadPooledSlots := []\<rparr>,
               trace := trace (the strands_backlog) @
                 map (\<lambda>j. QueueEnqueue j NullTask) (keys (strandSlots (impl (the strands_backlog)))) @
                 concat (map (\<lambda>j. map (ListenerCall j) (queue_of j (impl (the strands_backlog))) @ [ListenerJoin j])
                           (keys (strandSlots (impl (the strands_backlog))))) @
                 [ThreadsClear (set (keys (strandSlots (impl (the strands_backlog))))),
                  QueuesClear (set (keys (strandSlots (impl (the strands_backlog))))),
                  SlotsClear SynchronousSlots (set (keys (synchronousSlots (impl (the strands_backlog))))),
                  SlotsClear AsynchronousSlots (set (keys (asynchronousSlots (impl (the strands_backlog))))),
                  SlotsClear StrandSlots (set (keys (strandSlots (impl (the strands_backlog))))),
                  SlotsClear ThreadPooledSlots (set (keys (threadPooledSlots (impl (the strands_backlog)))))]\<rparr>)"
    using t [THEN conjunct2, THEN conjunct1] q0 q1 by (simp add: ss keys_def)
  have e1: "drop (length (trace (the strands_backlog)))
     (trace (state_of (disconnectSlot (the strands_backlog) 1))) =
     [QueueEnqueue 1 NullTask,
      ListenerCall 1 (BoundCall 1 (Target (\<lambda>_. Returned)) 5),
      ListenerCall 1 (BoundCall 1 (Target (\<lambda>_. Returned)) 6),
      ListenerJoin 1, ThreadDestroy 1, QueueDestroy 1, SlotErase StrandSlots 1]"
    by (simp add: d1 q1)
  have e2: "keys (strandSlots (impl (state_of (disconnectSlot (the strands_backlog) 1)))) = [0]"
    by (simp add: d1 ss keys_def erase_def)
  have e3: "drop (length (trace (the strands_backlog)))
     (trace (state_of (disconnectAllSlots (the strands_backlog)))) =
     [QueueEnqueue 0 NullTask, QueueEnqueue 1 NullTask,
      ListenerCall 0 (BoundCall 0 (Target (\<lambda>_. Returned)) 6), ListenerJoin 0,
      ListenerCall 1 (BoundCall 1 (Target (\<lambda>_. Returned)) 5),
      ListenerCall 1 (BoundCall 1 (Target (\<lambda>_. Returned)) 6), ListenerJoin 1,
      ThreadsClear {0, 1}, QueuesClear {0, 1}, SlotsClear SynchronousSlots {},
      SlotsClear AsynchronousSlots {}, SlotsClear StrandSlots {0, 1},
      SlotsClear ThreadPooledSlots {}]"
    by (simp add: d2 q0 q1 ss os keys_def)
  have e4: "prefix (handshake_of 1 (drop (length (trace (the strands_backlog)))
             (trace (state_of (disconnectAllSlots (the strands_backlog))))))
     handshake"
    using t [THEN conjunct2, THEN conjunct2, THEN conjunct2, THEN conjunct1] .
  have e5: "handshake_of 1 (drop (length (trace (the strands_backlog)))
             (trace (state_of (disconnectAllSlots (the strands_backlog))))) = handshake"
    unfolding e3 by (simp add: handshake_def)
  have r1: "run (fresh 1000 False 1024)
     [Connect SYNCHRONOUS (Target (\<lambda>_. Returned)), Connect ASYNCHRONOUS (Target (\<lambda>_. Returned)),
      Connect STRAND (Target (\<lambda>_. Returned)), Connect THREAD_POOLED (Target (\<lambda>_. Returned))] =
     Some (one_of_each :: nat machine)"
    by (simp add: one_of_each_def engine_defs)
  have f1: "findSlotMapWithId (impl (one_of_each :: nat machine)) 1 = Some AsynchronousSlots"
    by (simp add: one_of_each_def engine_defs)
  have e6: "disconnectSlot (one_of_each :: nat machine) 1 =
      Returns () (erase_slot AsynchronousSlots 1 one_of_each)"
    using strand_disconnect_handshake [OF r1, of 1 1 AsynchronousSlots,
        THEN conjunct2, THEN conjunct2, THEN conjunct2, THEN conjunct2, THEN conjunct1] f1
    by simp
  have e7: "drop (length (trace (one_of_each :: nat machine)))
      (trace (state_of (disconnectSlot (one_of_each :: nat machine) 1))) =
     [SlotErase AsynchronousSlots 1]"
    unfolding e6 by (simp add: erase_slot_def emit_event_def)
  show ?thesis using r0 f e1 e2 e3 e4 e5 f1 e6 e7 by simp
qed

theorem strand_disconnect_after_wrap_counterexample:
  "wrapped_strand = Some (the wrapped_strand) \<and>
   map_count 0 (strandSlots (impl (the wrapped_strand))) \<and>
   disconnectSlot (the wrapped_strand) 0 =
     Returns () (erase_slot SynchronousSlots 0 (the wrapped_strand)) \<and>
   drop (length (trace (the wrapped_strand)))
     (trace (state_of (disconnectSlot (the wrapped_strand) 0))) =
     [SlotErase SynchronousSlots 0] \<and>
   strandSlots (impl (state_of (disconnectSlot (the wrapped_strand) 0))) =
     [(0, Target (\<lambda>_. Returned))] \<and>
   strandThreads (impl (state_of (disconnectSlot (the wrapped_strand) 0))) =
     [(0, Joinable initial_listener)]"
proof -
  have "(1 :: 32 word) + of_nat 4294967295 = 0" by simp
  from wrapped_strand_run [OF this, of 1000 False 1024 "Target (\<lambda>_. Returned)"
      "Target (\<lambda>_. Returned)" "Target (\<lambda>_. Returned)"]
  obtain W :: "nat machine" where W: "wrapped_strand = Some W"
    and f: "synchronousSlots (impl W) = [(0, Target (\<lambda>_. Returned))]"
      "strandSlots (impl W) = [(0, Target (\<lambda>_. Returned))]"
      "strandThreads (impl W) = [(0, Joinable initial_listener)]"
    unfolding wrapped_strand_def by blast
  have w: "the wrapped_strand = W" by (simp add: W)
  have l: "findSlotMapWithId (impl W) 0 = Some SynchronousSlots"
    by (simp add: findSlotMapWithId_def map_count_def f)
  have d: "disconnectSlot W 0 = Returns () (erase_slot SynchronousSlots 0 W)"
    by (simp add: disconnectSlot_def l)
  show ?thesis
    unfolding w using W f d by (simp add: map_count_def erase_slot_def)
qed

subsection \<open>Backpressure\<close>

lemma emitSignalUnsafe_dispatch_from:
  "emitSignalUnsafe m p =
     and_then (for_each (\<lambda>slot. runSynchronous (fst slot) (snd slot) p)
                 (synchronousSlots (impl m)) m) (dispatch_from p 0)"
proof -
  have "dispatch_from p 0 = (\<lambda>m1.
     and_then (for_each (\<lambda>slot. runAsynchronous (fst slot) (snd slot) p)
                 (asynchronousSlots (impl m1)) m1) (\<lambda>m2.
     and_then (for_each (\<lambda>slot. runStrands (fst slot) (snd slot) p)
                 (strandSlots (impl m2)) m2) (\<lambda>m3.
     for_each (\<lambda>slot. runThreadPooled (fst slot) (snd slot) p)
       (threadPooledSlots (impl m3)) m3)))"
    by (rule ext) (simp add: dispatch_from_def)
  then show ?thesis by (simp add: emitSignalUnsafe_def)
qed

lemma for_each_runAsynchronous_blocks:
  "unat (semCounter (impl m)) < length xs \<Longrightarrow>
   for_each (\<lambda>slot. runAsynchronous (fst slot) (snd slot) p) xs m =
     Fails would_block (spawned p (take (unat (semCounter (impl m))) xs) m)"
proof (induction xs arbitrary: m)
  case Nil
  then show ?case by simp
next
  case (Cons x xs)
  show ?case
  proof (cases "semCounter (impl m) = 0")
    case True
    then show ?thesis by (simp add: runAsynchronous_cases)
  next
    case False
    then have u: "unat (semCounter (impl m)) = Suc (unat (semCounter (impl m) - 1))"
      by (simp add: unat_minus_one unat_gt_0 Suc_pred')
    let ?m1 = "emit_event [SemAcquire, DetachedSpawn (fst x) p]
        (set_impl (\<lambda>s. s\<lparr>semCounter := semCounter s - 1,
                         detachedThreads := detachedThreads s @ [(fst x, snd x, p)]\<rparr>) m)"
    have step: "runAsynchronous (fst x) (snd x) p m = Returns () ?m1"
      using False by (simp add: runAsynchronous_cases)
    have "unat (semCounter (impl ?m1)) < length xs" using Cons.prems u by simp
    from Cons.IH [OF this] have
      "for_each (\<lambda>slot. runAsynchronous (fst slot) (snd slot) p) xs ?m1 =
        Fails would_block (spawned p (take (unat (semCounter (impl m) - 1)) xs) ?m1)"
      by simp
    then show ?thesis using step by (subst u) (simp add: spawned_Cons)
  qed
qed

lemma dispatch_from_Returns:
  assumes "length (drop k (asynchronousSlots (impl m))) \<le> unat (semCounter (impl m))"
  shows "dispatch_from p k m =
     Returns ()
       (pooled p (threadPooledSlots (impl m))
          (enqueued p (strandSlots (impl m))
             (spawned p (drop k (asynchronousSlots (impl m))) m)))"
proof -
  have "for_each (\<lambda>slot. runAsynchronous (fst slot) (snd slot) p)
      (drop k (asynchronousSlots (impl m))) m =
      Returns () (spawned p (drop k (asynchronousSlots (impl m))) m)"
    by (rule for_each_runAsynchronous_ok [OF assms])
  then show ?thesis
    by (simp add: dispatch_from_def for_each_runStrands for_each_runThreadPooled)
qed

lemma dispatch_from_Fails:
  assumes "unat (semCounter (impl m)) < length (drop k (asynchronousSlots (impl m)))"
  shows "dispatch_from p k m =
     Fails would_block
       (spawned p (take (unat (semCounter (impl m))) (drop k (asynchronousSlots (impl m)))) m)"
  using for_each_runAsynchronous_blocks [OF assms, of p] by (simp add: dispatch_from_def)

lemma filter_async_prefix:
  "prefix es (map (\<lambda>slot. SlotCall (fst slot) p) xs) \<Longrightarrow> filter async_event es = []"
  by (auto simp: prefix_def map_eq_append_conv async_event_def filter_empty_conv)

lemma detached_finishes_Returns:
  assumes "k < length (detachedThreads (impl m))"
    and "detachedThreads (impl m) ! k = (i, f, p)" and "invoke f p = None"
  shows "detached_finishes k m =
     Returns ()
       (m\<lparr>impl := (impl m)\<lparr>semCounter := semCounter (impl m) + 1,
                            detachedThreads := take k (detachedThreads (impl m)) @
                                               drop (Suc k) (detachedThreads (impl m))\<rparr>,
          trace := trace m @ [DetachedCall i p, SemRelease]\<rparr>)"
  using assms
  by (cases f) (simp_all add: detached_finishes_def release_def emit_event_def set_impl_def)

text \<open>
  Claim C5.  \<^verbatim>\<open>runAsynchronous\<close> first acquires the semaphore on the calling thread: with
  a counter of zero the caller waits and nothing is spawned; otherwise the counter goes
  down by one and then a detached thread exists that holds the slot and the emitted
  arguments.  That thread calls the slot with these arguments and, when the slot has
  returned, releases the semaphore, which puts the counter back.  \<^verbatim>\<open>emitSignal\<close> is the
  loop over the synchronous slots followed by the dispatch of the others.  When a synchronous
  slot throws, no asynchronous slot has been dispatched.  Otherwise the dispatch returns when
  the semaphore has a permit for every asynchronous slot left, having acquired and spawned
  once for each in the order of the slot map; and with \<open>n\<close> permits for more than \<open>n\<close> slots
  the caller waits in \<^verbatim>\<open>acquire\<close> having done so for the first \<open>n\<close>, the counter being
  zero.  A detached thread whose slot returns gives its permit back, so that the dispatch
  goes on from the slot it waited at.  No method of the engine waits for a detached thread
  or takes it away: \<^verbatim>\<open>connectSlot\<close>, \<^verbatim>\<open>disconnectSlot\<close> and \<^verbatim>\<open>disconnectAllSlots\<close> leave the
  detached threads as they are.
\<close>

theorem asynchronous_dispatch:
  "(semCounter (impl m) = 0 \<longrightarrow> runAsynchronous i f p m = Fails would_block m) \<and>
   (semCounter (impl m) \<noteq> 0 \<longrightarrow>
      (\<exists>m1. runAsynchronous i f p m = Returns () m1 \<and>
         trace m1 = trace m @ [SemAcquire, DetachedSpawn i p] \<and>
         semCounter (impl m1) = semCounter (impl m) - 1 \<and>
         detachedThreads (impl m1) = detachedThreads (impl m) @ [(i, f, p)] \<and>
         (invoke f p = None \<longrightarrow>
            (\<exists>m2. detached_finishes (length (detachedThreads (impl m))) m1 = Returns () m2 \<and>
               trace m2 = trace m1 @ [DetachedCall i p, SemRelease] \<and>
               semCounter (impl m2) = semCounter (impl m) \<and>
               detachedThreads (impl m2) = detachedThreads (impl m))) \<and>
         (invoke f p \<noteq> None \<longrightarrow>
            (\<exists>m2. detached_finishes (length (detachedThreads (impl m))) m1 = Fails terminate m2 \<and>
               SemRelease \<notin> set (drop (length (trace m1)) (trace m2)))))) \<and>
   emitSignal m p =
     and_then (for_each (\<lambda>slot. runSynchronous (fst slot) (snd slot) p)
                 (synchronousSlots (impl m)) m) (dispatch_from p 0) \<and>
   ((\<forall>slot \<in> set (synchronousSlots (impl m)). invoke (snd slot) p = None) \<longrightarrow>
      emitSignal m p =
        dispatch_from p 0
          (emit_event (map (\<lambda>slot. SlotCall (fst slot) p) (synchronousSlots (impl m))) m)) \<and>
   (\<forall>e m'. for_each (\<lambda>slot. runSynchronous (fst slot) (snd slot) p)
              (synchronousSlots (impl m)) m = Fails e m' \<longrightarrow>
      emitSignal m p = Fails e m' \<and>
      filter async_event (drop (length (trace m)) (trace m')) = [] \<and>
      detachedThreads (impl m') = detachedThreads (impl m)) \<and>
   (length (drop k (asynchronousSlots (impl m))) \<le> unat (semCounter (impl m)) \<longrightarrow>
      (\<exists>m'. dispatch_from p k m = Returns () m' \<and>
         trace m' = trace m @
           concat (map (\<lambda>slot. [SemAcquire, DetachedSpawn (fst slot) p])
                     (drop k (asynchronousSlots (impl m)))) @
           map (\<lambda>slot. QueueEnqueue (fst slot) (BoundCall (fst slot) (snd slot) p))
             (strandSlots (impl m)) @
           map (\<lambda>slot. PoolRun (BoundCall (fst slot) (snd slot) p)) (threadPooledSlots (impl m)) \<and>
         detachedThreads (impl m') =
           detachedThreads (impl m) @
           map (\<lambda>slot. (fst slot, snd slot, p)) (drop k (asynchronousSlots (impl m))) \<and>
         semCounter (impl m') =
           semCounter (impl m) - of_nat (length (drop k (asynchronousSlots (impl m)))))) \<and>
   (unat (semCounter (impl m)) < length (drop k (asynchronousSlots (impl m))) \<longrightarrow>
      (\<exists>m'. dispatch_from p k m = Fails would_block m' \<and>
         trace m' = trace m @
           concat (map (\<lambda>slot. [SemAcquire, DetachedSpawn (fst slot) p])
                     (take (unat (semCounter (impl m))) (drop k (asynchronousSlots (impl m))))) \<and>
         detachedThreads (impl m') =
           detachedThreads (impl m) @
           map (\<lambda>slot. (fst slot, snd slot, p))
             (take (unat (semCounter (impl m))) (drop k (asynchronousSlots (impl m)))) \<and>
         semCounter (impl m') = 0 \<and>
         asynchronousSlots (impl m') = asynchronousSlots (impl m))) \<and>
   (j < length (detachedThreads (impl m)) \<and> detachedThreads (impl m) ! j = (i', f', p') \<and>
    invoke f' p' = None \<longrightarrow>
      detached_finishes j m =
        Returns ()
          (m\<lparr>impl := (impl m)\<lparr>semCounter := semCounter (impl m) + 1,
                               detachedThreads := take j (detachedThreads (impl m)) @
                                                  drop (Suc j) (detachedThreads (impl m))\<rparr>,
             trace := trace m @ [DetachedCall i' p', SemRelease]\<rparr>)) \<and>
   (\<forall>m'. emitSignal m p = Returns () m' \<longrightarrow>
      filter async_event (drop (length (trace m)) (trace m')) =
        concat (map (\<lambda>slot. [SemAcquire, DetachedSpawn (fst slot) p]) (asynchronousSlots (impl m))) \<and>
      detachedThreads (impl m') =
        detachedThreads (impl m) @ map (\<lambda>slot. (fst slot, snd slot, p)) (asynchronousSlots (impl m)) \<and>
      semCounter (impl m') = semCounter (impl m) - of_nat (length (asynchronousSlots (impl m)))) \<and>
   detachedThreads (impl (state_of (connectSlot m scheme slot))) = detachedThreads (impl m) \<and>
   detachedThreads (impl (state_of (disconnectSlot m d))) = detachedThreads (impl m) \<and>
   detachedThreads (impl (state_of (disconnectAllSlots m))) = detachedThreads (impl m)"
proof (intro conjI allI impI)
  show "runAsynchronous i f p m = Fails would_block m" if "semCounter (impl m) = 0"
    using that by (simp add: runAsynchronous_cases)
  show "\<exists>m1. runAsynchronous i f p m = Returns () m1 \<and>
         trace m1 = trace m @ [SemAcquire, DetachedSpawn i p] \<and>
         semCounter (impl m1) = semCounter (impl m) - 1 \<and>
         detachedThreads (impl m1) = detachedThreads (impl m) @ [(i, f, p)] \<and>
         (invoke f p = None \<longrightarrow>
            (\<exists>m2. detached_finishes (length (detachedThreads (impl m))) m1 = Returns () m2 \<and>
               trace m2 = trace m1 @ [DetachedCall i p, SemRelease] \<and>
               semCounter (impl m2) = semCounter (impl m) \<and>
               detachedThreads (impl m2) = detachedThreads (impl m))) \<and>
         (invoke f p \<noteq> None \<longrightarrow>
            (\<exists>m2. detached_finishes (length (detachedThreads (impl m))) m1 = Fails terminate m2 \<and>
               SemRelease \<notin> set (drop (length (trace m1)) (trace m2))))"
    if nz: "semCounter (impl m) \<noteq> 0"
  proof -
    let ?m1 = "emit_event [SemAcquire, DetachedSpawn i p]
        (set_impl (\<lambda>s. s\<lparr>semCounter := semCounter s - 1,
                         detachedThreads := detachedThreads s @ [(i, f, p)]\<rparr>) m)"
    have r: "runAsynchronous i f p m = Returns () ?m1"
      using nz by (simp add: runAsynchronous_cases)
    have ok: "\<exists>m2. detached_finishes (length (detachedThreads (impl m))) ?m1 = Returns () m2 \<and>
               trace m2 = trace ?m1 @ [DetachedCall i p, SemRelease] \<and>
               semCounter (impl m2) = semCounter (impl m) \<and>
               detachedThreads (impl m2) = detachedThreads (impl m)" if "invoke f p = None"
      using that by (cases f) (simp_all add: detached_finishes_def release_def)
    have bad: "\<exists>m2. detached_finishes (length (detachedThreads (impl m))) ?m1 = Fails terminate m2 \<and>
               SemRelease \<notin> set (drop (length (trace ?m1)) (trace m2))" if "invoke f p \<noteq> None"
      using that by (cases f) (auto simp: detached_finishes_def)
    show ?thesis using r ok bad by simp
  qed
next
  show "emitSignal m p =
     and_then (for_each (\<lambda>slot. runSynchronous (fst slot) (snd slot) p)
                 (synchronousSlots (impl m)) m) (dispatch_from p 0)"
    by (simp add: emitSignal_unsafe emitSignalUnsafe_dispatch_from)
  show "emitSignal m p =
        dispatch_from p 0
          (emit_event (map (\<lambda>slot. SlotCall (fst slot) p) (synchronousSlots (impl m))) m)"
    if "\<forall>slot \<in> set (synchronousSlots (impl m)). invoke (snd slot) p = None"
    by (simp add: emitSignal_unsafe emitSignalUnsafe_dispatch_from
        for_each_runSynchronous_ok [OF that])
next
  fix e m'
  assume a: "for_each (\<lambda>slot. runSynchronous (fst slot) (snd slot) p)
              (synchronousSlots (impl m)) m = Fails e m'"
  show "emitSignal m p = Fails e m'"
    by (simp add: emitSignal_unsafe emitSignalUnsafe_dispatch_from a)
  from for_each_runSynchronous_Fails [OF a] obtain es where
    es: "impl m' = impl m" "trace m' = trace m @ es"
    "prefix es (map (\<lambda>slot. SlotCall (fst slot) p) (synchronousSlots (impl m)))"
    by blast
  show "filter async_event (drop (length (trace m)) (trace m')) = []"
    using es(2) filter_async_prefix [OF es(3)] by simp
  show "detachedThreads (impl m') = detachedThreads (impl m)" by (simp add: es(1))
next
  assume a: "length (drop k (asynchronousSlots (impl m))) \<le> unat (semCounter (impl m))"
  show "\<exists>m'. dispatch_from p k m = Returns () m' \<and>
         trace m' = trace m @
           concat (map (\<lambda>slot. [SemAcquire, DetachedSpawn (fst slot) p])
                     (drop k (asynchronousSlots (impl m)))) @
           map (\<lambda>slot. QueueEnqueue (fst slot) (BoundCall (fst slot) (snd slot) p))
             (strandSlots (impl m)) @
           map (\<lambda>slot. PoolRun (BoundCall (fst slot) (snd slot) p)) (threadPooledSlots (impl m)) \<and>
         detachedThreads (impl m') =
           detachedThreads (impl m) @
           map (\<lambda>slot. (fst slot, snd slot, p)) (drop k (asynchronousSlots (impl m))) \<and>
         semCounter (impl m') =
           semCounter (impl m) - of_nat (length (drop k (asynchronousSlots (impl m))))"
    by (simp add: dispatch_from_Returns [OF a])
next
  assume a: "unat (semCounter (impl m)) < length (drop k (asynchronousSlots (impl m)))"
  have "semCounter (impl m) - of_nat (unat (semCounter (impl m))) = 0" by simp
  then show "\<exists>m'. dispatch_from p k m = Fails would_block m' \<and>
         trace m' = trace m @
           concat (map (\<lambda>slot. [SemAcquire, DetachedSpawn (fst slot) p])
                     (take (unat (semCounter (impl m))) (drop k (asynchronousSlots (impl m))))) \<and>
         detachedThreads (impl m') =
           detachedThreads (impl m) @
           map (\<lambda>slot. (fst slot, snd slot, p))
             (take (unat (semCounter (impl m))) (drop k (asynchronousSlots (impl m)))) \<and>
         semCounter (impl m') = 0 \<and>
         asynchronousSlots (impl m') = asynchronousSlots (impl m)"
    using a by (simp add: dispatch_from_Fails [OF a] min_def)
next
  assume "j < length (detachedThreads (impl m)) \<and> detachedThreads (impl m) ! j = (i', f', p') \<and>
    invoke f' p' = None"
  then show "detached_finishes j m =
        Returns ()
          (m\<lparr>impl := (impl m)\<lparr>semCounter := semCounter (impl m) + 1,
                               detachedThreads := take j (detachedThreads (impl m)) @
                                                  drop (Suc j) (detachedThreads (impl m))\<rparr>,
             trace := trace m @ [DetachedCall i' p', SemRelease]\<rparr>)"
    using detached_finishes_Returns [of j m i' f' p'] by simp
next
  fix m'
  assume "emitSignal m p = Returns () m'"
  then have m': "m' = emitted p m"
    using emitSignalUnsafe_Returns(1) [of m p m'] by (simp add: emitSignal_unsafe)
  show "filter async_event (drop (length (trace m)) (trace m')) =
        concat (map (\<lambda>slot. [SemAcquire, DetachedSpawn (fst slot) p]) (asynchronousSlots (impl m)))"
    by (simp add: m' trace_emitted filter_async_events)
  show "detachedThreads (impl m') =
        detachedThreads (impl m) @ map (\<lambda>slot. (fst slot, snd slot, p)) (asynchronousSlots (impl m))"
    by (simp add: m' emitted_def)
  show "semCounter (impl m') = semCounter (impl m) - of_nat (length (asynchronousSlots (impl m)))"
    by (simp add: m' emitted_def)
next
  show "detachedThreads (impl (state_of (connectSlot m scheme slot))) = detachedThreads (impl m)"
    by (simp add: detachedThreads_connectSlot)
  show "detachedThreads (impl (state_of (disconnectSlot m d))) = detachedThreads (impl m)"
    by (simp add: detachedThreads_disconnectSlot)
  show "detachedThreads (impl (state_of (disconnectAllSlots m))) = detachedThreads (impl m)"
    by (simp add: detachedThreads_disconnectAllSlots)
qed

theorem asynchronous_dispatch_witness:
  "emitSignal throttled 7 = Fails would_block (state_of (emitSignal throttled 7)) \<and>
   trace (state_of (emitSignal throttled 7)) = [SemAcquire, DetachedSpawn 0 7] \<and>
   semCounter (impl (state_of (emitSignal throttled 7))) = 0 \<and>
   detached_finishes 0 (state_of (emitSignal throttled 7)) =
     Returns () (state_of (detached_finishes 0 (state_of (emitSignal throttled 7)))) \<and>
   trace (state_of (detached_finishes 0 (state_of (emitSignal throttled 7)))) =
     [SemAcquire, DetachedSpawn 0 7, DetachedCall 0 7, SemRelease] \<and>
   dispatch_from 7 1 (state_of (detached_finishes 0 (state_of (emitSignal throttled 7)))) =
     Returns ()
       (state_of (dispatch_from 7 1
          (state_of (detached_finishes 0 (state_of (emitSignal throttled 7)))))) \<and>
   trace (state_of (dispatch_from 7 1
       (state_of (detached_finishes 0 (state_of (emitSignal throttled 7)))))) =
     [SemAcquire, DetachedSpawn 0 7, DetachedCall 0 7, SemRelease, SemAcquire, DetachedSpawn 1 7] \<and>
   emitSignal one_of_each 7 = Returns () (state_of (emitSignal one_of_each 7)) \<and>
   filter async_event (drop (length (trace one_of_each)) (trace (state_of (emitSignal one_of_each 7)))) =
     [SemAcquire, DetachedSpawn 1 7]"
proof -
  let ?B = "state_of (emitSignal throttled 7)"
  let ?R = "state_of (detached_finishes 0 ?B)"
  let ?F = "state_of (dispatch_from 7 1 ?R)"
  have s: "synchronousSlots (impl throttled) = []"
    and a: "asynchronousSlots (impl throttled) =
      [(0, Target (\<lambda>_. Returned)), (1, Target (\<lambda>_. Returned))]"
    and c: "semCounter (impl throttled) = 1"
    by (simp_all add: throttled_def engine_defs)
  note t = asynchronous_dispatch [where m = throttled and p = 7 and k = 0]
  have e: "emitSignal throttled 7 = dispatch_from 7 0 throttled"
    using t [THEN conjunct2, THEN conjunct2, THEN conjunct2, THEN conjunct1] by (simp add: s)
  obtain m' where b: "dispatch_from 7 0 throttled = Fails would_block m'"
    "semCounter (impl m') = 0"
    using t [THEN conjunct2, THEN conjunct2, THEN conjunct2, THEN conjunct2, THEN conjunct2,
        THEN conjunct2, THEN conjunct1]
    by (auto simp: a c)
  have w1: "emitSignal throttled 7 = Fails would_block ?B" using e b by simp
  have w3: "semCounter (impl ?B) = 0" using e b by simp
  have w2: "trace ?B = [SemAcquire, DetachedSpawn 0 7]"
    by (simp add: throttled_def engine_defs)
  have w4: "detached_finishes 0 ?B = Returns () ?R"
    by (simp add: throttled_def engine_defs)
  have w5: "trace ?R = [SemAcquire, DetachedSpawn 0 7, DetachedCall 0 7, SemRelease]"
    by (simp add: throttled_def engine_defs)
  have w6: "dispatch_from 7 1 ?R = Returns () ?F"
    by (simp add: throttled_def dispatch_from_def engine_defs)
  have w7: "trace ?F =
     [SemAcquire, DetachedSpawn 0 7, DetachedCall 0 7, SemRelease, SemAcquire, DetachedSpawn 1 7]"
    by (simp add: throttled_def dispatch_from_def engine_defs)
  have w8: "emitSignal one_of_each 7 = Returns () (state_of (emitSignal one_of_each 7))"
    by (simp add: one_of_each_def engine_defs)
  have w9: "filter async_event (drop (length (trace one_of_each))
      (trace (state_of (emitSignal one_of_each 7)))) = [SemAcquire, DetachedSpawn 1 7]"
    by (simp add: one_of_each_def engine_defs async_event_def)
  show ?thesis using w1 w2 w3 w4 w5 w6 w7 w8 w9 by simp
qed

subsection \<open>A scheme that is no enumerator\<close>







subsection \<open>Slots that call the engine\<close>













end
